theory Spec2Isabelle
  imports Main "HOL-Library.Sublist"
begin

section \<open>Regular expressions as the two scripts use them\<close>

text \<open>
  Both scripts hand a pattern and a replacement template to \<^verbatim>\<open>re.sub\<close> of Python's
  standard library. The patterns are built from literal characters, character classes
  given by ranges, concatenation, one greedy star and one capturing group; the fragment
  below has exactly these constructors (\<open>Eps\<close>, the empty pattern, ends a literal).
  A text is a \<^typ>\<open>string\<close>; the patterns only mention ASCII characters, and without
  flags a range such as \<^verbatim>\<open>[A-Z]\<close> holds ASCII characters only, so the bytes of a
  non-ASCII code point never take part in a match.
\<close>

datatype regex =
    Eps
  | Chr char
  | Cls "(char \<times> char) list"
  | Seq regex regex
  | Star regex
  | Group nat regex

type_synonym groups = "nat \<rightharpoonup> string"

datatype titem = TLit string | TGroup nat

type_synonym template = "titem list"

definition in_class :: "char \<Rightarrow> (char \<times> char) list \<Rightarrow> bool" where
  "in_class c rs =
     list_ex (\<lambda>(lo, hi). (of_char lo :: nat) \<le> of_char c \<and> (of_char c :: nat) \<le> of_char hi) rs"

text \<open>
  The backtracking matcher of \<^verbatim>\<open>re\<close>, written as the list of all ways the pattern
  can match a prefix of the text, in the order in which the engine tries them: each
  entry is the text left after the match together with the groups captured on the way.
  A greedy star tries one more iteration before it tries to stop. An iteration that
  consumes nothing is cut off (the engine does the same to stay finite).
\<close>

function re_match :: "regex \<Rightarrow> string \<times> groups \<Rightarrow> (string \<times> groups) list" where
  "re_match Eps (s, g) = [(s, g)]"
| "re_match (Chr c) (s, g) =
     (case s of [] \<Rightarrow> [] | x # xs \<Rightarrow> if x = c then [(xs, g)] else [])"
| "re_match (Cls rs) (s, g) =
     (case s of [] \<Rightarrow> [] | x # xs \<Rightarrow> if in_class x rs then [(xs, g)] else [])"
| "re_match (Seq a b) (s, g) = concat (map (re_match b) (re_match a (s, g)))"
| "re_match (Star a) (s, g) =
     concat (map (\<lambda>(s', g'). if length s' < length s then re_match (Star a) (s', g') else [])
                 (re_match a (s, g)))
     @ [(s, g)]"
| "re_match (Group n a) (s, g) =
     map (\<lambda>(s', g'). (s', g'(n \<mapsto> take (length s - length s') s))) (re_match a (s, g))"
  by pat_completeness auto
termination
  by (relation "inv_image (less_than <*lex*> less_than) (\<lambda>(r, s, g). (size r, length s))")
     auto

declare re_match.simps(5) [simp del]

lemma re_match_suffix:
  "(s', g') \<in> set (re_match p (s, g)) \<Longrightarrow> suffix s' s"
proof (induction p "(s, g)" arbitrary: s g s' g' rule: re_match.induct)
  case (1 s g)
  then show ?case by simp
next
  case (2 c s g)
  then show ?case by (auto split: list.splits if_splits simp: suffix_def)
next
  case (3 rs s g)
  then show ?case by (auto split: list.splits if_splits simp: suffix_def)
next
  case (4 a b s g)
  from "4.prems" obtain s1 g1 where m1: "(s1, g1) \<in> set (re_match a (s, g))"
    and m2: "(s', g') \<in> set (re_match b (s1, g1))" by auto
  from "4.hyps"(1) [OF m1] "4.hyps"(2) [OF m1 m2] show ?case
    by (rule suffix_order.trans [rotated])
next
  case (5 a s g)
  show ?case
  proof (cases "(s', g') = (s, g)")
    case True
    then show ?thesis by simp
  next
    case False
    with "5.prems" obtain s1 g1 where m1: "(s1, g1) \<in> set (re_match a (s, g))"
      and lt: "length s1 < length s"
      and m2: "(s', g') \<in> set (re_match (Star a) (s1, g1))"
      by (subst (asm) re_match.simps(5)) (auto split: if_splits)
    from "5.hyps"(1) [OF m1] "5.hyps"(2) [OF m1 refl lt m2] show ?thesis
      by (rule suffix_order.trans [rotated])
  qed
next
  case (6 n a s g)
  then show ?case by auto
qed

text \<open>
  \<^verbatim>\<open>first_match\<close> is one attempt of the engine at the current position. After an
  empty match \<^verbatim>\<open>re.sub\<close> asks the next attempt to advance: an empty match is then
  refused and the engine backtracks into the later alternatives.
\<close>

definition first_match :: "regex \<Rightarrow> bool \<Rightarrow> string \<Rightarrow> (string \<times> groups) option" where
  "first_match p must_advance s =
     (case filter (\<lambda>(s', g). \<not> must_advance \<or> s' \<noteq> s) (re_match p (s, Map.empty)) of
        [] \<Rightarrow> None
      | m # _ \<Rightarrow> Some m)"

lemma first_match_Some:
  assumes "first_match p adv s = Some (rest, g)"
  shows "(rest, g) \<in> set (re_match p (s, Map.empty)) \<and> (adv \<longrightarrow> rest \<noteq> s)"
proof -
  from assms obtain ms where
    "filter (\<lambda>(s', g). \<not> adv \<or> s' \<noteq> s) (re_match p (s, Map.empty)) = (rest, g) # ms"
    by (auto simp: first_match_def split: list.splits)
  then have "(rest, g) \<in> set (filter (\<lambda>(s', g). \<not> adv \<or> s' \<noteq> s) (re_match p (s, Map.empty)))"
    by simp
  then show ?thesis by auto
qed

lemma first_match_length:
  assumes "first_match p adv s = Some (rest, g)"
  shows "length rest \<le> length s \<and> (length rest = length s \<longrightarrow> rest = s \<and> \<not> adv)"
proof -
  from first_match_Some [OF assms] re_match_suffix [of rest g p s Map.empty]
  have "suffix rest s" and "adv \<longrightarrow> rest \<noteq> s" by auto
  then show ?thesis by (auto simp: suffix_def)
qed

fun expand :: "template \<Rightarrow> groups \<Rightarrow> string" where
  "expand [] g = []"
| "expand (TLit l # t) g = l @ expand t g"
| "expand (TGroup n # t) g = (case g n of None \<Rightarrow> [] | Some v \<Rightarrow> v) @ expand t g"

text \<open>
  \<^verbatim>\<open>re.sub(pattern, repl, string)\<close>: scan the text from the left; where the pattern
  matches, the expanded template replaces the match and the scan goes on behind it
  (and stops when the match reached the end of the text); where it does not, the
  character is copied. \<open>must_advance\<close> is set after an empty match only.
\<close>

function re_sub_from :: "regex \<Rightarrow> template \<Rightarrow> bool \<Rightarrow> string \<Rightarrow> string" where
  "re_sub_from p t must_advance s =
     (case first_match p must_advance s of
        Some (rest, g) \<Rightarrow>
          expand t g @ (if rest = [] then [] else re_sub_from p t (rest = s) rest)
      | None \<Rightarrow> (case s of [] \<Rightarrow> [] | c # cs \<Rightarrow> c # re_sub_from p t False cs))"
  by pat_completeness auto
termination
  by (relation "measure (\<lambda>(p, t, adv, s). 2 * length s + (if adv then 0 else 1))")
     (auto dest: first_match_length)

declare re_sub_from.simps [simp del]

definition re_sub :: "regex \<Rightarrow> template \<Rightarrow> string \<Rightarrow> string" where
  "re_sub p t s = re_sub_from p t False s"

text \<open>\<^verbatim>\<open>re.search(pattern, string) is not None\<close>: the pattern matches somewhere.\<close>

fun re_search :: "regex \<Rightarrow> string \<Rightarrow> bool" where
  "re_search p [] = (first_match p False [] \<noteq> None)"
| "re_search p (c # cs) = (first_match p False (c # cs) \<noteq> None \<or> re_search p cs)"

text \<open>
  \<^verbatim>\<open>re.findall(pattern, string)\<close> for a pattern with one group: the text captured
  by group 1 in each of the matches that \<^verbatim>\<open>re.sub\<close> replaces.
\<close>

function re_findall_from :: "regex \<Rightarrow> bool \<Rightarrow> string \<Rightarrow> string list" where
  "re_findall_from p must_advance s =
     (case first_match p must_advance s of
        Some (rest, g) \<Rightarrow>
          (case g 1 of None \<Rightarrow> [] | Some v \<Rightarrow> v)
          # (if rest = [] then [] else re_findall_from p (rest = s) rest)
      | None \<Rightarrow> (case s of [] \<Rightarrow> [] | c # cs \<Rightarrow> re_findall_from p False cs))"
  by pat_completeness auto
termination
  by (relation "measure (\<lambda>(p, adv, s). 2 * length s + (if adv then 0 else 1))")
     (auto dest: first_match_length)

declare re_findall_from.simps [simp del]

definition re_findall :: "regex \<Rightarrow> string \<Rightarrow> string list" where
  "re_findall p s = re_findall_from p False s"

subsection \<open>The two substitution rules\<close>

definition lit :: "string \<Rightarrow> regex" where
  "lit cs = foldr (\<lambda>c r. Seq (Chr c) r) cs Eps"

definition upper :: "(char \<times> char) list" where
  "upper = [(CHR ''A'', CHR ''Z'')]"

definition alnum :: "(char \<times> char) list" where
  "alnum = [(CHR ''a'', CHR ''z''), (CHR ''A'', CHR ''Z''), (CHR ''0'', CHR ''9'')]"

text \<open>\<^verbatim>\<open>pattern = r'revert([A-Z][a-zA-Z0-9]*)\(\);'\<close> and the template \<^verbatim>\<open>r'revert \1();'\<close>.\<close>

definition pattern :: regex where
  "pattern =
     Seq (lit ''revert'')
       (Seq (Group 1 (Seq (Cls upper) (Star (Cls alnum)))) (lit ''();''))"

definition revert_template :: template where
  "revert_template = [TLit ''revert '', TGroup 1, TLit ''();'']"

text \<open>\<^verbatim>\<open>r"pragma solidity =0\.8\.15;"\<close> and the replacement \<^verbatim>\<open>"pragma solidity ^0.8.20;"\<close>.\<close>

definition pragma_pattern :: regex where
  "pragma_pattern = lit ''pragma solidity =0.8.15;''"

definition pragma_template :: template where
  "pragma_template = [TLit ''pragma solidity ^0.8.20;'']"

definition fix_revert_text :: "string \<Rightarrow> string" where
  "fix_revert_text content = re_sub pattern revert_template content"

definition fix_solidity_version_text :: "string \<Rightarrow> string" where
  "fix_solidity_version_text content = re_sub pragma_pattern pragma_template content"

section \<open>The two scripts\<close>

subsection \<open>Directory tree, files and console\<close>

text \<open>
  What \<^verbatim>\<open>os.scandir\<close> shows of the tree under the root: an entry is a directory with
  its named entries, in the order in which the directory lists them, or anything else.
\<close>

datatype fs_node = NonDir | Dir "(string \<times> fs_node) list"

fun is_dir :: "fs_node \<Rightarrow> bool" where
  "is_dir NonDir = False"
| "is_dir (Dir es) = True"

text \<open>
  \<^verbatim>\<open>os.walk(top)\<close>, top-down and with the default \<^verbatim>\<open>onerror=None\<close>: a directory
  yields its own triple (path, names of the sub-directories, names of the other entries)
  and then the triples of each sub-directory, in order. A top directory that cannot be listed,
  because it does not exist or is not a directory, yields nothing: the error of
  \<^verbatim>\<open>scandir\<close> is dropped. \<open>join\<close> stands for \<^verbatim>\<open>os.path.join\<close> of the platform.
  The loop bodies only rewrite the contents of files that exist, so the triples are the
  same whether they are produced lazily or, as here, all at once.
\<close>

fun os_walk ::
  "(string \<Rightarrow> string \<Rightarrow> string) \<Rightarrow> string \<Rightarrow> fs_node \<Rightarrow> (string \<times> string list \<times> string list) list"
where
  "os_walk join topdir NonDir = []"
| "os_walk join topdir (Dir es) =
     (topdir, map fst (filter (\<lambda>(n, d). is_dir d) es), map fst (filter (\<lambda>(n, d). \<not> is_dir d) es))
     # concat (map (\<lambda>(n, d). os_walk join (join topdir n) d) (filter (\<lambda>(n, d). is_dir d) es))"

definition os_walk_top ::
  "(string \<Rightarrow> string \<Rightarrow> string) \<Rightarrow> string \<Rightarrow> fs_node option
     \<Rightarrow> (string \<times> string list \<times> string list) list"
where
  "os_walk_top join topdir root =
     (case root of None \<Rightarrow> [] | Some node \<Rightarrow> os_walk join topdir node)"

text \<open>\<^verbatim>\<open>str.endswith\<close>: a case-sensitive comparison with the end of the name.\<close>

definition endswith :: "string \<Rightarrow> string \<Rightarrow> bool" where
  "endswith s suf = (length suf \<le> length s \<and> drop (length s - length suf) s = suf)"

text \<open>
  Both scripts open their files in text mode with the default \<^verbatim>\<open>newline=None\<close>.
  Reading translates every line end, carriage return with line feed and a carriage
  return alone included, to a line feed; writing translates every line feed to
  \<^verbatim>\<open>os.linesep\<close>, which is carriage return with line feed on Windows and a line feed
  elsewhere.
\<close>

abbreviation CR :: char where
  "CR \<equiv> CHR 0x0D"

abbreviation LF :: char where
  "LF \<equiv> CHR 0x0A"

fun universal_newlines :: "string \<Rightarrow> string" where
  "universal_newlines [] = []"
| "universal_newlines [c] = [if c = CR then LF else c]"
| "universal_newlines (c # d # s) =
     (if c = CR then
        (if d = LF then LF # universal_newlines s else LF # universal_newlines (d # s))
      else c # universal_newlines (d # s))"

definition os_linesep :: "bool \<Rightarrow> string" where
  "os_linesep on_windows = (if on_windows then [CR, LF] else [LF])"

definition write_newlines :: "bool \<Rightarrow> string \<Rightarrow> string" where
  "write_newlines on_windows s = concat (map (\<lambda>c. if c = LF then os_linesep on_windows else [c]) s)"

text \<open>
  The state the scripts act on. \<open>disk\<close> gives the characters stored in each file that
  \<^verbatim>\<open>open(path, 'r', encoding='utf-8')\<close> can open and read, and \<open>None\<close> where opening,
  reading or decoding raises. \<open>windows\<close> tells which \<^verbatim>\<open>os.linesep\<close> the platform has.
  Writing can fail in two ways: \<open>unwritable\<close> holds the paths where
  \<^verbatim>\<open>open(path, 'w')\<close> raises, which leaves the file as it was; \<open>write_fails\<close> gives,
  for a path where the file is opened (and so truncated) and \<^verbatim>\<open>f.write\<close> or the closing
  flush raises, how many characters had reached the file. \<open>unprintable\<close> holds the
  paths that the console cannot encode, so that \<^verbatim>\<open>print\<close> of a line with the path
  raises; the line \<^verbatim>\<open>Done!\<close> is ASCII and prints. \<open>stdout\<close> is the list of printed
  lines; \<open>calls\<close> records every call of \<^verbatim>\<open>open\<close> with its mode, in order.
\<close>

datatype io_call = OpenR string | OpenW string

datatype py_error = ReadError string | WriteError string | PrintError string

record world =
  disk :: "string \<rightharpoonup> string"
  windows :: bool
  unwritable :: "string set"
  write_fails :: "string \<rightharpoonup> nat"
  unprintable :: "string set"
  stdout :: "string list"
  calls :: "io_call list"

text \<open>
  \<open>read_text\<close> is what \<^verbatim>\<open>f.read()\<close> returns for a file, \<open>written\<close> is what a
  complete \<^verbatim>\<open>f.write(s)\<close> stores.
\<close>

definition read_text :: "world \<Rightarrow> string \<Rightarrow> string option" where
  "read_text w path = map_option universal_newlines (disk w path)"

definition written :: "world \<Rightarrow> string \<Rightarrow> string" where
  "written w s = write_newlines (windows w) s"

text \<open>
  The two scripts are the same loop over different constants: the pattern, the
  replacement and the wording of the line printed for a rewritten file.
\<close>

record rule =
  rule_pattern :: regex
  rule_repl :: template
  rule_msg :: string

subsection \<open>The loop\<close>

text \<open>
  The body of the inner loop behind the extension test (lines 14 to 27 of
  \<^verbatim>\<open>fix_revert.py\<close>, 11 to 26 of \<^verbatim>\<open>fix_solidity_version.py\<close>): read the file,
  substitute, and write back and print only if the text changed. An exception ends
  the run; the state reached until then stays: a write that fails behind the opening
  leaves the truncated file with what had been written, and a print that fails leaves
  the file rewritten and unreported. \<open>for_files\<close> is the inner loop with its test
  \<^verbatim>\<open>file.endswith('.sol')\<close>, \<open>for_walk\<close> the outer loop over the triples of
  \<^verbatim>\<open>os.walk\<close>.
\<close>

definition process_file :: "rule \<Rightarrow> string \<Rightarrow> world \<Rightarrow> py_error option \<times> world" where
  "process_file r file_path w =
     (let w1 = w\<lparr>calls := calls w @ [OpenR file_path]\<rparr> in
      case read_text w file_path of
        None \<Rightarrow> (Some (ReadError file_path), w1)
      | Some content \<Rightarrow>
          let new_content = re_sub (rule_pattern r) (rule_repl r) content in
          if new_content \<noteq> content then
            (let w2 = w1\<lparr>calls := calls w1 @ [OpenW file_path]\<rparr> in
             if file_path \<in> unwritable w then (Some (WriteError file_path), w2)
             else
               (case write_fails w file_path of
                  Some n \<Rightarrow>
                    (Some (WriteError file_path),
                     w2\<lparr>disk := (disk w2)(file_path \<mapsto> take n (written w new_content))\<rparr>)
                | None \<Rightarrow>
                    (let w3 = w2\<lparr>disk := (disk w2)(file_path \<mapsto> written w new_content)\<rparr> in
                     if file_path \<in> unprintable w then (Some (PrintError file_path), w3)
                     else (None, w3\<lparr>stdout := stdout w3 @ [rule_msg r @ file_path]\<rparr>))))
          else (None, w1))"

fun for_files ::
  "rule \<Rightarrow> (string \<Rightarrow> string \<Rightarrow> string) \<Rightarrow> string \<Rightarrow> string list \<Rightarrow> world
     \<Rightarrow> py_error option \<times> world"
where
  "for_files r join root [] w = (None, w)"
| "for_files r join root (file # files) w =
     (if endswith file ''.sol'' then
        (case process_file r (join root file) w of
           (Some e, w') \<Rightarrow> (Some e, w')
         | (None, w') \<Rightarrow> for_files r join root files w')
      else for_files r join root files w)"

fun for_walk ::
  "rule \<Rightarrow> (string \<Rightarrow> string \<Rightarrow> string) \<Rightarrow> (string \<times> string list \<times> string list) list \<Rightarrow> world
     \<Rightarrow> py_error option \<times> world"
where
  "for_walk r join [] w = (None, w)"
| "for_walk r join ((root, dirs, files) # triples) w =
     (case for_files r join root files w of
        (Some e, w') \<Rightarrow> (Some e, w')
      | (None, w') \<Rightarrow> for_walk r join triples w')"

definition rewrite_tree ::
  "rule \<Rightarrow> (string \<Rightarrow> string \<Rightarrow> string) \<Rightarrow> string \<Rightarrow> fs_node option \<Rightarrow> world
     \<Rightarrow> py_error option \<times> world"
where
  "rewrite_tree r join topdir root w = for_walk r join (os_walk_top join topdir root) w"

subsection \<open>\<^verbatim>\<open>fix_revert.py\<close> and \<^verbatim>\<open>fix_solidity_version.py\<close>\<close>

text \<open>
  The directories are the raw strings of the scripts, with their backslashes. The
  second script prints \<^verbatim>\<open>Done!\<close> behind the loop, so only when no exception ended it.
\<close>

definition backslash :: string where
  "backslash = [CHR 0x5C]"

definition contracts_dir :: string where
  "contracts_dir =
     ''E:'' @ backslash @ ''ReactWorkplace'' @ backslash @ ''Web3-Study'' @ backslash
     @ ''NextSwapDex'' @ backslash @ ''contracts''"

definition periphery_dir :: string where
  "periphery_dir =
     ''contracts'' @ backslash @ ''contract'' @ backslash @ ''swap'' @ backslash @ ''periphery''"

definition revert_rule :: rule where
  "revert_rule =
     \<lparr>rule_pattern = pattern, rule_repl = revert_template, rule_msg = ''Fixed ''\<rparr>"

definition pragma_rule :: rule where
  "pragma_rule =
     \<lparr>rule_pattern = pragma_pattern, rule_repl = pragma_template, rule_msg = ''Updated: ''\<rparr>"

definition fix_revert ::
  "(string \<Rightarrow> string \<Rightarrow> string) \<Rightarrow> fs_node option \<Rightarrow> world \<Rightarrow> py_error option \<times> world"
where
  "fix_revert join root w = rewrite_tree revert_rule join contracts_dir root w"

definition fix_solidity_version ::
  "(string \<Rightarrow> string \<Rightarrow> string) \<Rightarrow> fs_node option \<Rightarrow> world \<Rightarrow> py_error option \<times> world"
where
  "fix_solidity_version join root w =
     (case rewrite_tree pragma_rule join periphery_dir root w of
        (Some e, w') \<Rightarrow> (Some e, w')
      | (None, w') \<Rightarrow> (None, w'\<lparr>stdout := stdout w' @ [''Done!'']\<rparr>))"

section \<open>Notions for stating the properties\<close>

subsection \<open>Matches of the two patterns, written out\<close>

text \<open>
  \<open>strip_prefix cs s\<close> is the text behind the literal \<open>cs\<close> at the start of \<open>s\<close>.
  \<open>revert_at s\<close> is the match of \<^verbatim>\<open>revert([A-Z][a-zA-Z0-9]*)\(\);\<close> at the start of
  \<open>s\<close>, as the pair of the captured identifier and the text behind the match;
  \<open>is_ident\<close> is what the group can capture. Below, the engine is shown to compute
  exactly these on the two patterns.
\<close>

fun strip_prefix :: "string \<Rightarrow> string \<Rightarrow> string option" where
  "strip_prefix [] s = Some s"
| "strip_prefix (c # cs) [] = None"
| "strip_prefix (c # cs) (x # xs) = (if x = c then strip_prefix cs xs else None)"

definition revert_at :: "string \<Rightarrow> (string \<times> string) option" where
  "revert_at s =
     (case strip_prefix ''revert'' s of
        None \<Rightarrow> None
      | Some [] \<Rightarrow> None
      | Some (u # w) \<Rightarrow>
          if in_class u upper then
            (case strip_prefix ''();'' (dropWhile (\<lambda>x. in_class x alnum) w) of
               None \<Rightarrow> None
             | Some rest \<Rightarrow> Some (u # takeWhile (\<lambda>x. in_class x alnum) w, rest))
          else None)"

definition is_ident :: "string \<Rightarrow> bool" where
  "is_ident w = (case w of [] \<Rightarrow> False | u # v \<Rightarrow> in_class u upper \<and> list_all (\<lambda>x. in_class x alnum) v)"

definition old_pragma :: string where
  "old_pragma = ''pragma solidity =0.8.15;''"

definition new_pragma :: string where
  "new_pragma = ''pragma solidity ^0.8.20;''"

text \<open>
  \<open>nested_revert w\<close>: the text \<open>w\<close> contains \<^verbatim>\<open>revert\<close> followed by an upper-case
  letter. \<open>open_revert a\<close>: the text \<open>a\<close> ends with \<^verbatim>\<open>revert\<close> and an identifier,
  so that a match which starts there is not finished at the end of \<open>a\<close>.
\<close>

definition nested_revert :: "string \<Rightarrow> bool" where
  "nested_revert w = (\<exists>u. in_class u upper \<and> sublist (''revert'' @ [u]) w)"

definition open_revert :: "string \<Rightarrow> bool" where
  "open_revert a = (\<exists>a1 w. a = a1 @ ''revert'' @ w \<and> is_ident w)"

subsection \<open>The loop as one pass over the paths that pass the filter\<close>

text \<open>
  \<open>sol_paths\<close> lists the paths that the two nested loops hand to the loop body: for
  each triple of the walk, in order, the joined path of each name that ends with
  \<^verbatim>\<open>.sol\<close>. \<open>run_paths\<close> runs the body over such a list. \<open>changed r w p\<close> says
  that the file at \<open>p\<close> is readable in \<open>w\<close> and that the substitution of \<open>r\<close>
  alters its text.
\<close>

definition sol_paths ::
  "(string \<Rightarrow> string \<Rightarrow> string) \<Rightarrow> (string \<times> string list \<times> string list) list \<Rightarrow> string list"
where
  "sol_paths join triples =
     concat (map (\<lambda>(root, dirs, files). map (join root) (filter (\<lambda>f. endswith f ''.sol'') files))
               triples)"

fun run_paths :: "rule \<Rightarrow> string list \<Rightarrow> world \<Rightarrow> py_error option \<times> world" where
  "run_paths r [] w = (None, w)"
| "run_paths r (p # ps) w =
     (case process_file r p w of
        (Some e, w') \<Rightarrow> (Some e, w')
      | (None, w') \<Rightarrow> run_paths r ps w')"

definition changed :: "rule \<Rightarrow> world \<Rightarrow> string \<Rightarrow> bool" where
  "changed r w p =
     (case read_text w p of None \<Rightarrow> False
      | Some c \<Rightarrow> re_sub (rule_pattern r) (rule_repl r) c \<noteq> c)"

text \<open>
  \<open>rewritten r w raw\<close> is what a file with the characters \<open>raw\<close> holds after the
  body has processed it without exception.
\<close>

definition rewritten :: "rule \<Rightarrow> world \<Rightarrow> string \<Rightarrow> string" where
  "rewritten r w raw =
     (let content = universal_newlines raw;
          new_content = re_sub (rule_pattern r) (rule_repl r) content
      in if new_content \<noteq> content then written w new_content else raw)"

subsection \<open>A run to try the scripts on\<close>

text \<open>
  A run starts with nothing printed and no file opened (\<open>fresh\<close>).
  \<open>posix_join\<close> is \<^verbatim>\<open>posixpath.join\<close> on two arguments. The example tree holds
  two files that end with \<^verbatim>\<open>.sol\<close>, one of them in a sub-directory, and three
  that do not; \<open>example_world\<close> puts the given contents on the disk of a platform
  where nothing fails.
\<close>

definition fresh :: "world \<Rightarrow> world" where
  "fresh w = w\<lparr>stdout := [], calls := []\<rparr>"

definition posix_join :: "string \<Rightarrow> string \<Rightarrow> string" where
  "posix_join a b =
     (if prefix ''/'' b then b
      else if a = [] \<or> suffix ''/'' a then a @ b
      else a @ ''/'' @ b)"

definition example_tree :: fs_node where
  "example_tree =
     Dir [(''A.sol'', NonDir), (''X.SOL'', NonDir),
          (''lib'', Dir [(''B.sol'', NonDir), (''C.solx'', NonDir)]),
          (''notes.txt'', NonDir)]"

definition example_world :: "bool \<Rightarrow> (string \<rightharpoonup> string) \<Rightarrow> world" where
  "example_world on_windows contents =
     \<lparr>disk = contents, windows = on_windows, unwritable = {}, write_fails = Map.empty,
      unprintable = {}, stdout = [], calls = []\<rparr>"

definition example_texts :: "string \<rightharpoonup> string" where
  "example_texts =
     [''c/A.sol'' \<mapsto> ''revertFoo(); revertBar();'',
      ''c/X.SOL'' \<mapsto> ''revertFoo();'',
      ''c/lib/B.sol'' \<mapsto> ''revert AlreadySet();'',
      ''c/lib/C.solx'' \<mapsto> ''revertFoo();'',
      ''c/notes.txt'' \<mapsto> ''revertFoo();'']"

definition contracts_texts :: "string \<rightharpoonup> string" where
  "contracts_texts =
     [posix_join contracts_dir ''A.sol'' \<mapsto> ''revertFoo(); revertBar();'',
      posix_join (posix_join contracts_dir ''lib'') ''B.sol'' \<mapsto> ''revert AlreadySet();'']"

definition periphery_texts :: "string \<rightharpoonup> string" where
  "periphery_texts =
     [posix_join periphery_dir ''A.sol'' \<mapsto> ''pragma solidity =0.8.15;'',
      posix_join (posix_join periphery_dir ''lib'') ''B.sol'' \<mapsto> ''pragma solidity ^0.8.19;'']"

text \<open>
  Two sets of files whose line ends are not those of the platform: one where
  \<^verbatim>\<open>A.sol\<close> ends with carriage return and line feed, to be read where \<^verbatim>\<open>os.linesep\<close>
  is a line feed, and one where it ends with a line feed, to be read on Windows.
  In \<open>failing_world\<close> the write to \<^verbatim>\<open>A.sol\<close> fails before a character is stored.
  \<open>prefixed_texts\<close> has the two statements of \<^verbatim>\<open>A.sol\<close> behind a letter each.
\<close>

definition crlf_texts :: "string \<rightharpoonup> string" where
  "crlf_texts = example_texts(''c/A.sol'' \<mapsto> ''revertFoo();'' @ [CR, LF])"

definition lf_texts :: "string \<rightharpoonup> string" where
  "lf_texts = example_texts(''c/A.sol'' \<mapsto> ''revertFoo();'' @ [LF])"

definition failing_world :: world where
  "failing_world = (example_world False example_texts)\<lparr>write_fails := [''c/A.sol'' \<mapsto> 0]\<rparr>"


section \<open>Lemmas\<close>

subsection \<open>What the engine computes on the two patterns\<close>

text \<open>
  Neither pattern needs backtracking: a literal either is a prefix of the text or is not,
  and behind the greedy \<^verbatim>\<open>[a-zA-Z0-9]*\<close> the pattern asks for \<^verbatim>\<open>(\<close>, which the
  class does not contain, so only the longest run of the star can be completed.
\<close>

lemma strip_prefix_Some: "strip_prefix cs s = Some r \<longleftrightarrow> s = cs @ r"
  by (induction cs s rule: strip_prefix.induct) auto

lemma strip_prefix_append [simp]: "strip_prefix cs (cs @ r) = Some r"
  by (simp add: strip_prefix_Some)

lemma strip_prefix_None: "strip_prefix cs s = None \<longleftrightarrow> \<not> prefix cs s"
  by (induction cs s rule: strip_prefix.induct) auto

lemma re_match_lit:
  "re_match (lit cs) (s, g) = (case strip_prefix cs s of None \<Rightarrow> [] | Some r \<Rightarrow> [(r, g)])"
proof (induction cs arbitrary: s)
  case Nil
  then show ?case by (simp add: lit_def)
next
  case (Cons c cs)
  have "lit (c # cs) = Seq (Chr c) (lit cs)" by (simp add: lit_def)
  with Cons show ?case by (cases s) auto
qed

lemma re_match_lit_then:
  "re_match (Seq (lit cs) r) (s, g) =
     (case strip_prefix cs s of None \<Rightarrow> [] | Some s' \<Rightarrow> re_match r (s', g))"
  by (simp add: re_match_lit split: option.splits)

lemma re_match_star_cls_Nil: "re_match (Star (Cls rs)) ([], g) = [([], g)]"
  by (subst re_match.simps(5)) simp

lemma re_match_star_cls_Cons:
  "re_match (Star (Cls rs)) (x # xs, g) =
     (if in_class x rs then re_match (Star (Cls rs)) (xs, g) @ [(x # xs, g)] else [(x # xs, g)])"
  by (subst re_match.simps(5)) simp

lemma star_cls_then:
  assumes "\<And>x xs. in_class x rs \<Longrightarrow> H (x # xs, g) = []"
  shows "concat (map H (re_match (Star (Cls rs)) (s, g))) = H (dropWhile (\<lambda>x. in_class x rs) s, g)"
  using assms
  by (induction s) (simp_all add: re_match_star_cls_Nil re_match_star_cls_Cons)

lemma not_alnum_paren: "\<not> in_class CHR ''('' alnum"
  by (simp add: in_class_def alnum_def)

lemma take_length_dropWhile: "take (length xs - length (dropWhile P xs)) xs = takeWhile P xs"
  by (induction xs) (auto simp: Suc_diff_le length_dropWhile_le)

lemma re_match_ident_call_Nil:
  "re_match (Seq (Group 1 (Seq (Cls upper) (Star (Cls alnum)))) (lit ''();'')) ([], g) = []"
  by simp

lemma re_match_ident_call_Cons:
  "re_match (Seq (Group 1 (Seq (Cls upper) (Star (Cls alnum)))) (lit ''();'')) (u # w, g) =
     (if in_class u upper then
        (case strip_prefix ''();'' (dropWhile (\<lambda>x. in_class x alnum) w) of
           None \<Rightarrow> []
         | Some rest \<Rightarrow> [(rest, g(1 \<mapsto> u # takeWhile (\<lambda>x. in_class x alnum) w))])
      else [])"
proof (cases "in_class u upper")
  case False
  then show ?thesis by simp
next
  case True
  let ?H = "\<lambda>m. re_match (lit ''();'')
               (case m of (s', g') \<Rightarrow> (s', g'(1 \<mapsto> take (length (u # w) - length s') (u # w))))"
  have H: "\<And>x xs. in_class x alnum \<Longrightarrow> ?H (x # xs, g) = []"
    using not_alnum_paren by (auto simp: re_match_lit)
  have "re_match (Seq (Group 1 (Seq (Cls upper) (Star (Cls alnum)))) (lit ''();'')) (u # w, g)
          = concat (map ?H (re_match (Star (Cls alnum)) (w, g)))"
    using True by (simp add: comp_def)
  also have "\<dots> = ?H (dropWhile (\<lambda>x. in_class x alnum) w, g)"
    by (rule star_cls_then) (rule H)
  also have "\<dots> = (case strip_prefix ''();'' (dropWhile (\<lambda>x. in_class x alnum) w) of
           None \<Rightarrow> []
         | Some rest \<Rightarrow> [(rest, g(1 \<mapsto> u # takeWhile (\<lambda>x. in_class x alnum) w))])"
    using take_length_dropWhile [where P = "\<lambda>x. in_class x alnum" and xs = w]
    by (simp add: re_match_lit Suc_diff_le length_dropWhile_le split: option.splits)
  finally show ?thesis using True by simp
qed

lemma re_match_pattern:
  "re_match pattern (s, g) =
     (case revert_at s of None \<Rightarrow> [] | Some (ident, rest) \<Rightarrow> [(rest, g(1 \<mapsto> ident))])"
  unfolding pattern_def re_match_lit_then revert_at_def
  by (simp add: re_match_ident_call_Nil [unfolded One_nat_def]
        re_match_ident_call_Cons [unfolded One_nat_def] del: re_match.simps
        split: option.splits list.splits)

lemma dropWhile_eq_append:
  "dropWhile P w = x # r \<Longrightarrow> \<not> P x \<and> w = takeWhile P w @ x # r"
  by (metis dropWhile_eq_Cons_conv takeWhile_dropWhile_id)

lemma revert_at_Some:
  "revert_at s = Some (ident, rest) \<longleftrightarrow> s = ''revert'' @ ident @ ''();'' @ rest \<and> is_ident ident"
proof
  assume "revert_at s = Some (ident, rest)"
  then obtain u w where s: "s = ''revert'' @ u # w" and u: "in_class u upper"
    and d: "dropWhile (\<lambda>x. in_class x alnum) w = ''();'' @ rest"
    and i: "ident = u # takeWhile (\<lambda>x. in_class x alnum) w"
    by (auto simp: revert_at_def strip_prefix_Some split: option.splits list.splits if_splits)
  have "w = takeWhile (\<lambda>x. in_class x alnum) w @ ''();'' @ rest"
    using takeWhile_dropWhile_id [of "\<lambda>x. in_class x alnum" w] d by simp
  moreover have "list_all (\<lambda>x. in_class x alnum) (takeWhile (\<lambda>x. in_class x alnum) w)"
    by (simp add: list_all_iff) (meson set_takeWhileD)
  ultimately show "s = ''revert'' @ ident @ ''();'' @ rest \<and> is_ident ident"
    using s u i by (simp add: is_ident_def)
next
  assume a: "s = ''revert'' @ ident @ ''();'' @ rest \<and> is_ident ident"
  then obtain u v where i: "ident = u # v" and u: "in_class u upper"
    and v: "list_all (\<lambda>x. in_class x alnum) v"
    by (auto simp: is_ident_def split: list.splits)
  have tw: "takeWhile (\<lambda>x. in_class x alnum) (v @ CHR ''('' # r) = v" for r
    using v not_alnum_paren by (simp add: takeWhile_append2 list_all_iff)
  have dw: "dropWhile (\<lambda>x. in_class x alnum) (v @ CHR ''('' # r) = CHR ''('' # r" for r
    using v not_alnum_paren by (simp add: dropWhile_append2 list_all_iff)
  show "revert_at s = Some (ident, rest)"
    using a u i by (simp add: revert_at_def tw dw)
qed

lemma revert_at_shorter: "revert_at s = Some (ident, rest) \<Longrightarrow> length rest < length s"
  by (simp add: revert_at_Some)

lemma first_match_pattern:
  "first_match pattern adv s =
     (case revert_at s of None \<Rightarrow> None | Some (ident, rest) \<Rightarrow> Some (rest, [1 \<mapsto> ident]))"
  by (auto simp: first_match_def re_match_pattern split: option.splits dest: revert_at_shorter)

lemma first_match_pragma:
  "first_match pragma_pattern adv s = 
     (case strip_prefix ''pragma solidity =0.8.15;'' s of
        None \<Rightarrow> None | Some rest \<Rightarrow> Some (rest, Map.empty))"
proof (cases "strip_prefix ''pragma solidity =0.8.15;'' s")
  case None
  then show ?thesis by (simp add: first_match_def pragma_pattern_def re_match_lit)
next
  case (Some rest)
  then have "length s = 24 + length rest" by (simp add: strip_prefix_Some)
  then have "rest \<noteq> s" by auto
  with Some show ?thesis by (simp add: first_match_def pragma_pattern_def re_match_lit)
qed

lemma fix_revert_text_unfold:
  "fix_revert_text s =
     (case revert_at s of
        Some (ident, rest) \<Rightarrow> ''revert '' @ ident @ ''();'' @ fix_revert_text rest
      | None \<Rightarrow> (case s of [] \<Rightarrow> [] | c # cs \<Rightarrow> c # fix_revert_text cs))"
proof (cases "revert_at s")
  case None
  then show ?thesis
    unfolding fix_revert_text_def re_sub_def
    by (subst re_sub_from.simps) (simp add: first_match_pattern split: list.splits)
next
  case (Some m)
  obtain ident rest where m: "m = (ident, rest)" by (cases m)
  from Some m have ne: "rest \<noteq> s" using revert_at_shorter by fastforce
  have ex: "expand revert_template [1 \<mapsto> ident] = ''revert '' @ ident @ ''();''"
    by (simp add: revert_template_def)
  have nil: "re_sub_from pattern revert_template False [] = []"
    by (subst re_sub_from.simps) (simp add: first_match_pattern revert_at_def)
  have "re_sub_from pattern revert_template False s =
          expand revert_template [1 \<mapsto> ident]
          @ (if rest = [] then [] else re_sub_from pattern revert_template (rest = s) rest)"
    by (subst re_sub_from.simps) (simp add: first_match_pattern Some m)
  also have "(if rest = [] then [] else re_sub_from pattern revert_template (rest = s) rest)
               = re_sub_from pattern revert_template False rest"
    using ne nil by simp
  finally show ?thesis
    unfolding fix_revert_text_def re_sub_def ex by (simp add: Some m)
qed

lemma fix_solidity_version_text_unfold:
  "fix_solidity_version_text s =
     (case strip_prefix ''pragma solidity =0.8.15;'' s of
        Some rest \<Rightarrow> ''pragma solidity ^0.8.20;'' @ fix_solidity_version_text rest
      | None \<Rightarrow> (case s of [] \<Rightarrow> [] | c # cs \<Rightarrow> c # fix_solidity_version_text cs))"
proof (cases "strip_prefix ''pragma solidity =0.8.15;'' s")
  case None
  then show ?thesis
    unfolding fix_solidity_version_text_def re_sub_def
    by (subst re_sub_from.simps) (simp add: first_match_pragma split: list.splits)
next
  case (Some rest)
  then have "length s = 24 + length rest" by (simp add: strip_prefix_Some)
  then have ne: "rest \<noteq> s" by auto
  have ex: "expand pragma_template g = ''pragma solidity ^0.8.20;''" for g
    by (simp add: pragma_template_def)
  have nil: "re_sub_from pragma_pattern pragma_template False [] = []"
    by (subst re_sub_from.simps) (simp add: first_match_pragma)
  have "re_sub_from pragma_pattern pragma_template False s =
          expand pragma_template Map.empty
          @ (if rest = [] then [] else re_sub_from pragma_pattern pragma_template (rest = s) rest)"
    by (subst re_sub_from.simps) (simp add: first_match_pragma Some)
  also have "(if rest = [] then [] else re_sub_from pragma_pattern pragma_template (rest = s) rest)
               = re_sub_from pragma_pattern pragma_template False rest"
    using ne nil by simp
  finally show ?thesis
    unfolding fix_solidity_version_text_def re_sub_def ex by (simp add: Some)
qed

subsection \<open>The loops run the body over the filtered paths\<close>

lemma run_paths_append:
  "run_paths r (ps @ qs) w =
     (case run_paths r ps w of (Some e, w') \<Rightarrow> (Some e, w') | (None, w') \<Rightarrow> run_paths r qs w')"
  by (induction ps arbitrary: w) (auto split: prod.splits option.splits)

lemma for_files_run_paths:
  "for_files r join root files w =
     run_paths r (map (join root) (filter (\<lambda>f. endswith f ''.sol'') files)) w"
  by (induction files arbitrary: w) (auto split: prod.splits option.splits)

lemma for_walk_run_paths: "for_walk r join triples w = run_paths r (sol_paths join triples) w"
  by (induction triples arbitrary: w)
     (auto simp: sol_paths_def for_files_run_paths run_paths_append split: prod.splits option.splits)

lemma process_file_cases:
  "process_file r p w =
     (case disk w p of
        None \<Rightarrow> (Some (ReadError p), w\<lparr>calls := calls w @ [OpenR p]\<rparr>)
      | Some raw \<Rightarrow>
          if changed r w p then
            if p \<in> unwritable w
            then (Some (WriteError p), w\<lparr>calls := calls w @ [OpenR p, OpenW p]\<rparr>)
            else
              (case write_fails w p of
                 Some n \<Rightarrow>
                   (Some (WriteError p),
                    w\<lparr>disk := (disk w)(p \<mapsto> take n (rewritten r w raw)),
                      calls := calls w @ [OpenR p, OpenW p]\<rparr>)
               | None \<Rightarrow>
                   if p \<in> unprintable w
                   then (Some (PrintError p),
                         w\<lparr>disk := (disk w)(p \<mapsto> rewritten r w raw),
                           calls := calls w @ [OpenR p, OpenW p]\<rparr>)
                   else (None,
                         w\<lparr>disk := (disk w)(p \<mapsto> rewritten r w raw),
                           stdout := stdout w @ [rule_msg r @ p],
                           calls := calls w @ [OpenR p, OpenW p]\<rparr>))
          else (None, w\<lparr>calls := calls w @ [OpenR p]\<rparr>))"
  by (simp add: process_file_def changed_def rewritten_def read_text_def Let_def
           split: option.splits)

lemma process_file_env:
  "process_file r p w = (e, w') \<Longrightarrow>
     windows w' = windows w \<and> unwritable w' = unwritable w
     \<and> write_fails w' = write_fails w \<and> unprintable w' = unprintable w"
  by (auto simp: process_file_cases split: option.splits if_splits)

lemma rewritten_env: "windows w1 = windows w \<Longrightarrow> rewritten r w1 = rewritten r w"
  by (simp add: rewritten_def written_def fun_eq_iff Let_def)

lemma process_file_disk_other:
  "process_file r p w = (e, w') \<Longrightarrow> q \<noteq> p \<Longrightarrow> disk w' q = disk w q"
  by (auto simp: process_file_cases split: option.splits if_splits)

lemma rewritten_unchanged:
  "disk w p = Some raw \<Longrightarrow> \<not> changed r w p \<Longrightarrow> rewritten r w raw = raw"
  by (simp add: changed_def rewritten_def read_text_def Let_def)

lemma process_file_disk_ok:
  "process_file r p w = (None, w') \<Longrightarrow>
     disk w' p = map_option (rewritten r w) (disk w p) \<and> disk w p \<noteq> None"
  by (auto simp: process_file_cases rewritten_unchanged split: option.splits if_splits)

lemma process_file_calls:
  "process_file r p w = (e, w') \<Longrightarrow>
     calls w' = calls w @ OpenR p # (if changed r w p then [OpenW p] else [])"
  by (auto simp: process_file_cases changed_def read_text_def split: option.splits if_splits)

lemma process_file_stdout:
  "process_file r p w = (e, w') \<Longrightarrow>
     stdout w' = stdout w @ (if e = None \<and> changed r w p then [rule_msg r @ p] else [])"
  by (auto simp: process_file_cases changed_def read_text_def split: option.splits if_splits)

lemma process_file_changed_other:
  "process_file r p w = (e, w') \<Longrightarrow> q \<noteq> p \<Longrightarrow> changed r w' q = changed r w q"
  by (simp add: changed_def read_text_def process_file_disk_other)

lemma run_paths_env:
  "run_paths r ps w = (e, w') \<Longrightarrow>
     windows w' = windows w \<and> unwritable w' = unwritable w
     \<and> write_fails w' = write_fails w \<and> unprintable w' = unprintable w"
proof (induction ps arbitrary: w)
  case Nil
  then show ?case by simp
next
  case (Cons p ps)
  obtain e1 w1 where pf: "process_file r p w = (e1, w1)" by (cases "process_file r p w")
  show ?case
  proof (cases e1)
    case None
    with Cons.prems pf have "run_paths r ps w1 = (e, w')" by simp
    from Cons.IH [OF this] process_file_env [OF pf] show ?thesis by simp
  next
    case (Some x)
    with Cons.prems pf have "w' = w1" by simp
    with process_file_env [OF pf] show ?thesis by simp
  qed
qed

text \<open>The whole run, when no path is visited twice and nothing raises.\<close>

lemma run_paths_ok:
  assumes "run_paths r ps w = (None, w')" and "distinct ps"
  shows "disk w' = (\<lambda>q. if q \<in> set ps then map_option (rewritten r w) (disk w q) else disk w q)"
    and "calls w' = calls w @ concat (map (\<lambda>p. OpenR p # (if changed r w p then [OpenW p] else [])) ps)"
    and "stdout w' = stdout w @ map (\<lambda>p. rule_msg r @ p) (filter (changed r w) ps)"
    and "\<forall>p \<in> set ps. disk w p \<noteq> None"
  using assms
proof (induction ps arbitrary: w)
  case Nil
  { case 1 then show ?case by simp }
  { case 2 then show ?case by simp }
  { case 3 then show ?case by simp }
  { case 4 then show ?case by simp }
next
  case (Cons p ps)
  { case 1
    then obtain w1 where pf: "process_file r p w = (None, w1)" and rest: "run_paths r ps w1 = (None, w')"
      by (auto split: prod.splits option.splits)
    from 1 have d: "distinct ps" "p \<notin> set ps" by auto
    have rw: "rewritten r w1 = rewritten r w"
      using process_file_env [OF pf] by (intro rewritten_env) simp
    have "disk w1 q = disk w q" if "q \<in> set ps" for q
      using that d(2) process_file_disk_other [OF pf, of q] by auto
    then show ?case
      unfolding Cons.IH(1) [OF rest d(1)] rw
      using process_file_disk_ok [OF pf] process_file_disk_other [OF pf]
      by (auto simp: fun_eq_iff) }
  { case 2
    then obtain w1 where pf: "process_file r p w = (None, w1)" and rest: "run_paths r ps w1 = (None, w')"
      by (auto split: prod.splits option.splits)
    from 2 have d: "distinct ps" "p \<notin> set ps" by auto
    have ch: "changed r w1 q = changed r w q" if "q \<in> set ps" for q
      using that d(2) process_file_changed_other [OF pf, of q] by auto
    have "map (\<lambda>q. OpenR q # (if changed r w1 q then [OpenW q] else [])) ps
            = map (\<lambda>q. OpenR q # (if changed r w q then [OpenW q] else [])) ps"
      by (intro map_cong) (simp_all add: ch)
    then show ?case
      unfolding Cons.IH(2) [OF rest d(1)] process_file_calls [OF pf] by (simp del: map_eq_conv) }
  { case 3
    then obtain w1 where pf: "process_file r p w = (None, w1)" and rest: "run_paths r ps w1 = (None, w')"
      by (auto split: prod.splits option.splits)
    from 3 have d: "distinct ps" "p \<notin> set ps" by auto
    have ch: "changed r w1 q = changed r w q" if "q \<in> set ps" for q
      using that d(2) process_file_changed_other [OF pf, of q] by auto
    have "filter (changed r w1) ps = filter (changed r w) ps"
      by (intro filter_cong) (simp_all add: ch)
    then show ?case
      unfolding Cons.IH(3) [OF rest d(1)] process_file_stdout [OF pf] by simp }
  { case 4
    then obtain w1 where pf: "process_file r p w = (None, w1)" and rest: "run_paths r ps w1 = (None, w')"
      by (auto split: prod.splits option.splits)
    from 4 have d: "distinct ps" "p \<notin> set ps" by auto
    have "disk w1 q = disk w q" if "q \<in> set ps" for q
      using that d(2) process_file_disk_other [OF pf, of q] by auto
    then show ?case
      using Cons.IH(4) [OF rest d(1)] process_file_disk_ok [OF pf]
      by auto }
qed

lemma process_file_unchanged:
  "process_file r p w = (e, w') \<Longrightarrow> \<not> changed r w p \<Longrightarrow> disk w' = disk w"
  by (auto simp: process_file_cases split: option.splits if_splits)

lemma process_file_changed_keep:
  assumes "process_file r p w = (e, w')" and "\<not> changed r w q"
  shows "\<not> changed r w' q"
proof (cases "q = p")
  case True
  with assms process_file_unchanged [OF assms(1)] show ?thesis
    by (simp add: changed_def read_text_def)
next
  case False
  with assms process_file_changed_other [OF assms(1) False] show ?thesis by simp
qed

lemma run_paths_disk_frame:
  "run_paths r ps w = (e, w') \<Longrightarrow> q \<notin> set ps \<Longrightarrow> disk w' q = disk w q"
proof (induction ps arbitrary: w)
  case Nil
  then show ?case by simp
next
  case (Cons p ps)
  obtain e1 w1 where pf: "process_file r p w = (e1, w1)" by (cases "process_file r p w")
  from Cons.prems(2) have q: "q \<noteq> p" "q \<notin> set ps" by auto
  show ?case
  proof (cases e1)
    case None
    with Cons.prems(1) pf have "run_paths r ps w1 = (e, w')" by simp
    from Cons.IH [OF this q(2)] process_file_disk_other [OF pf q(1)] show ?thesis by simp
  next
    case (Some x)
    with Cons.prems(1) pf have "w' = w1" by simp
    with process_file_disk_other [OF pf q(1)] show ?thesis by simp
  qed
qed

lemma run_paths_calls_frame:
  "run_paths r ps w = (e, w') \<Longrightarrow>
     set (calls w') \<subseteq> set (calls w) \<union> OpenR ` set ps \<union> OpenW ` set ps
     \<and> set (calls w) \<subseteq> set (calls w')"
proof (induction ps arbitrary: w)
  case Nil
  then show ?case by simp
next
  case (Cons p ps)
  obtain e1 w1 where pf: "process_file r p w = (e1, w1)" by (cases "process_file r p w")
  have c1: "set (calls w1) \<subseteq> set (calls w) \<union> {OpenR p, OpenW p}" "set (calls w) \<subseteq> set (calls w1)"
    using process_file_calls [OF pf] by auto
  show ?case
  proof (cases e1)
    case None
    with Cons.prems(1) pf have "run_paths r ps w1 = (e, w')" by simp
    from Cons.IH [OF this] c1 show ?thesis by auto
  next
    case (Some x)
    with Cons.prems(1) pf have "w' = w1" by simp
    with c1 show ?thesis by auto
  qed
qed

lemma run_paths_stdout_frame:
  "run_paths r ps w = (e, w') \<Longrightarrow>
     set (stdout w') \<subseteq> set (stdout w) \<union> (\<lambda>p. rule_msg r @ p) ` set ps"
proof (induction ps arbitrary: w)
  case Nil
  then show ?case by simp
next
  case (Cons p ps)
  obtain e1 w1 where pf: "process_file r p w = (e1, w1)" by (cases "process_file r p w")
  have c1: "set (stdout w1) \<subseteq> set (stdout w) \<union> {rule_msg r @ p}"
    using process_file_stdout [OF pf] by auto
  show ?case
  proof (cases e1)
    case None
    with Cons.prems(1) pf have "run_paths r ps w1 = (e, w')" by simp
    from Cons.IH [OF this] c1 show ?thesis by auto
  next
    case (Some x)
    with Cons.prems(1) pf have "w' = w1" by simp
    with c1 show ?thesis by auto
  qed
qed

lemma process_file_unchanged_step:
  assumes pf: "process_file r p w = (e1, w1)" and nc: "\<not> changed r w q"
  shows "disk w1 q = disk w q
       \<and> (OpenW q \<in> set (calls w1) \<longrightarrow> OpenW q \<in> set (calls w))
       \<and> (rule_msg r @ q \<in> set (stdout w1) \<longrightarrow> rule_msg r @ q \<in> set (stdout w))
       \<and> \<not> changed r w1 q"
proof -
  have "disk w1 q = disk w q"
    using process_file_unchanged [OF pf] process_file_disk_other [OF pf] nc
    by (cases "q = p") auto
  moreover have "OpenW q \<in> set (calls w1) \<Longrightarrow> OpenW q \<in> set (calls w)"
    using process_file_calls [OF pf] nc by (auto split: if_splits)
  moreover have "rule_msg r @ q \<in> set (stdout w1) \<Longrightarrow> rule_msg r @ q \<in> set (stdout w)"
    using process_file_stdout [OF pf] nc by (auto split: if_splits)
  moreover note process_file_changed_keep [OF pf nc]
  ultimately show ?thesis by blast
qed

lemma run_paths_unchanged:
  assumes "run_paths r ps w = (e, w')" and "\<not> changed r w q"
  shows "disk w' q = disk w q
       \<and> (OpenW q \<in> set (calls w') \<longrightarrow> OpenW q \<in> set (calls w))
       \<and> (rule_msg r @ q \<in> set (stdout w') \<longrightarrow> rule_msg r @ q \<in> set (stdout w))"
  using assms
proof (induction ps arbitrary: w)
  case Nil
  then show ?case by simp
next
  case (Cons p ps)
  obtain e1 w1 where pf: "process_file r p w = (e1, w1)" by (cases "process_file r p w")
  note step = process_file_unchanged_step [OF pf Cons.prems(2)]
  show ?case
  proof (cases e1)
    case None
    with Cons.prems(1) have "run_paths r ps w1 = (e, w')" by (simp add: pf)
    from Cons.IH [OF this] step show ?thesis by simp
  next
    case (Some x)
    with Cons.prems(1) have "w' = w1" by (simp add: pf)
    with step show ?thesis by simp
  qed
qed

lemma run_paths_written:
  "run_paths r ps w = (None, w') \<Longrightarrow> p \<in> set ps \<Longrightarrow> changed r w p
     \<Longrightarrow> OpenW p \<in> set (calls w')"
proof (induction ps arbitrary: w)
  case Nil
  then show ?case by simp
next
  case (Cons q ps)
  from Cons.prems(1) obtain w1 where pf: "process_file r q w = (None, w1)"
    and rest: "run_paths r ps w1 = (None, w')"
    by (auto split: prod.splits option.splits)
  show ?case
  proof (cases "q = p")
    case True
    with process_file_calls [OF pf] Cons.prems(3) have "OpenW p \<in> set (calls w1)" by simp
    with run_paths_calls_frame [OF rest] show ?thesis by auto
  next
    case False
    with Cons.prems(2) have "p \<in> set ps" by simp
    moreover from process_file_changed_other [OF pf, of p] False Cons.prems(3)
    have "changed r w1 p" by simp
    ultimately show ?thesis using Cons.IH [OF rest] by simp
  qed
qed

lemma re_sub_from_no_match:
  "\<not> re_search p s \<Longrightarrow> re_sub_from p t adv s = s"
proof (induction s arbitrary: adv)
  case Nil
  then have "re_match p ([], Map.empty) = []"
    by (auto simp: first_match_def split: list.splits)
  then have "first_match p adv [] = None" by (simp add: first_match_def)
  then show ?case by (subst re_sub_from.simps) simp
next
  case (Cons c cs)
  then have "re_match p (c # cs, Map.empty) = []"
    by (auto simp: first_match_def split: list.splits)
  then have "first_match p adv (c # cs) = None" by (simp add: first_match_def)
  moreover from Cons have "re_sub_from p t False cs = cs" by simp
  ultimately show ?case by (subst re_sub_from.simps) simp
qed

lemma endswith_suffix: "endswith s suf \<longleftrightarrow> suffix suf s"
proof
  assume "endswith s suf"
  then have "s = take (length s - length suf) s @ suf"
    using append_take_drop_id [of "length s - length suf" s] by (simp add: endswith_def)
  then show "suffix suf s" by (rule suffixI)
next
  assume "suffix suf s"
  then show "endswith s suf" by (auto simp: endswith_def suffix_def)
qed

lemma in_sol_paths:
  "p \<in> set (sol_paths join triples) \<longleftrightarrow>
     (\<exists>(root, dirs, files) \<in> set triples. \<exists>f \<in> set files. suffix ''.sol'' f \<and> p = join root f)"
  unfolding sol_paths_def by (simp add: endswith_suffix) blast

text \<open>
  Whatever the outcome of a run, a file holds what it held before, or the complete
  new text, or the part of the new text that a failing write had stored.
\<close>

lemma process_file_either:
  assumes "process_file r p w = (e, w')" and "disk w q = Some raw"
  shows "disk w' q = Some raw
       \<or> (q = p \<and> disk w' q
             = Some (written w (re_sub (rule_pattern r) (rule_repl r) (universal_newlines raw))))
       \<or> (q = p \<and> (\<exists>n. write_fails w q = Some n \<and> q \<notin> unwritable w
             \<and> disk w' q
                 = Some (take n (written w (re_sub (rule_pattern r) (rule_repl r)
                                              (universal_newlines raw))))))"
  using assms
  by (auto simp: process_file_cases rewritten_def changed_def read_text_def Let_def
           split: option.splits if_splits)

lemma run_paths_either:
  assumes "run_paths r ps w = (e, w')" and "distinct ps" and "disk w q = Some raw"
  shows "disk w' q = Some raw
       \<or> disk w' q = Some (written w (re_sub (rule_pattern r) (rule_repl r) (universal_newlines raw)))
       \<or> (\<exists>n. write_fails w q = Some n \<and> q \<notin> unwritable w
             \<and> disk w' q
                 = Some (take n (written w (re_sub (rule_pattern r) (rule_repl r)
                                              (universal_newlines raw)))))"
  using assms
proof (induction ps arbitrary: w)
  case Nil
  then show ?case by simp
next
  case (Cons p ps)
  obtain e1 w1 where pf: "process_file r p w = (e1, w1)" by (cases "process_file r p w")
  from Cons.prems(2) have d: "distinct ps" "p \<notin> set ps" by auto
  note env = process_file_env [OF pf]
  have rw: "written w1 = written w" using env by (simp add: written_def fun_eq_iff)
  have rest: "disk w' q = disk w1 q" if "q = p"
  proof (cases e1)
    case None
    with Cons.prems(1) have "run_paths r ps w1 = (e, w')" by (simp add: pf)
    from run_paths_disk_frame [OF this] d(2) that show ?thesis by simp
  next
    case (Some x)
    with Cons.prems(1) have "w' = w1" by (simp add: pf)
    then show ?thesis by simp
  qed
  from process_file_either [OF pf Cons.prems(3)]
  consider (same) "disk w1 q = Some raw" | (here) "q = p" by blast
  then show ?case
  proof cases
    case same
    show ?thesis
    proof (cases e1)
      case None
      with Cons.prems(1) have "run_paths r ps w1 = (e, w')" by (simp add: pf)
      from Cons.IH [OF this d(1) same] show ?thesis unfolding rw using env by simp
    next
      case (Some x)
      with Cons.prems(1) have "w' = w1" by (simp add: pf)
      with same show ?thesis by simp
    qed
  next
    case here
    with rest process_file_either [OF pf Cons.prems(3)] show ?thesis by auto
  qed
qed


subsection \<open>The pragma rule on arbitrary texts\<close>

text \<open>
  The old pragma line does not overlap itself: its first character occurs in it only
  once. So every occurrence of it in a text is a match, the text before and the text
  behind an occurrence are rewritten independently, and no occurrence is left or made.
\<close>

lemma pragma_unfold:
  "fix_solidity_version_text s =
     (case strip_prefix old_pragma s of
        Some rest \<Rightarrow> new_pragma @ fix_solidity_version_text rest
      | None \<Rightarrow> (case s of [] \<Rightarrow> [] | c # cs \<Rightarrow> c # fix_solidity_version_text cs))"
  unfolding old_pragma_def new_pragma_def by (rule fix_solidity_version_text_unfold)

lemma pragma_Nil: "fix_solidity_version_text [] = []"
  by (subst pragma_unfold) (simp add: old_pragma_def)

lemma old_pragma_hd: "\<exists>t. old_pragma = CHR ''p'' # t \<and> CHR ''p'' \<notin> set t"
  by (simp add: old_pragma_def)

lemma old_pragma_no_overlap:
  assumes "old_pragma = a @ us" and "a \<noteq> []" and "us \<noteq> []"
  shows "\<not> prefix us (old_pragma @ b)"
proof
  assume p: "prefix us (old_pragma @ b)"
  from old_pragma_hd obtain t where t: "old_pragma = CHR ''p'' # t" "CHR ''p'' \<notin> set t" by blast
  from p assms(3) have "hd us = CHR ''p''" unfolding t(1) by (cases us) auto
  moreover from assms(1,2) have "set us \<subseteq> set t" unfolding t(1) by (cases a) auto
  ultimately show False using assms(3) t(2) by (cases us) auto
qed

lemma strip_old_pragma_context:
  assumes "a \<noteq> []"
  shows "strip_prefix old_pragma (a @ old_pragma @ b)
           = map_option (\<lambda>a'. a' @ old_pragma @ b) (strip_prefix old_pragma a)"
proof (cases "strip_prefix old_pragma a")
  case (Some a')
  then have "a = old_pragma @ a'" by (simp add: strip_prefix_Some)
  then show ?thesis using Some by (simp add: strip_prefix_Some)
next
  case None
  then have np: "\<not> prefix old_pragma a" by (simp add: strip_prefix_None)
  have "\<not> prefix old_pragma (a @ old_pragma @ b)"
  proof
    assume "prefix old_pragma (a @ old_pragma @ b)"
    with np obtain us where us: "old_pragma = a @ us" "prefix us (old_pragma @ b)"
      by (auto simp: prefix_append)
    from us(1) np have "us \<noteq> []" by auto
    from old_pragma_no_overlap [OF us(1) assms this] us(2) show False by simp
  qed
  then have "strip_prefix old_pragma (a @ old_pragma @ b) = None"
    by (simp add: strip_prefix_None)
  with None show ?thesis by simp
qed

lemma pragma_context:
  "fix_solidity_version_text (a @ old_pragma @ b)
     = fix_solidity_version_text a @ new_pragma @ fix_solidity_version_text b"
proof (induction a rule: length_induct)
  case (1 a)
  show ?case
  proof (cases a)
    case Nil
    then show ?thesis by (subst pragma_unfold) (simp add: pragma_Nil)
  next
    case (Cons c a1)
    then have ne: "a \<noteq> []" by simp
    show ?thesis
    proof (cases "strip_prefix old_pragma a")
      case (Some a')
      then have "a = old_pragma @ a'" by (simp add: strip_prefix_Some)
      then have "length a' < length a" by (simp add: old_pragma_def)
      with 1 have ih: "fix_solidity_version_text (a' @ old_pragma @ b)
         = fix_solidity_version_text a' @ new_pragma @ fix_solidity_version_text b" by blast
      have "fix_solidity_version_text (a @ old_pragma @ b)
              = new_pragma @ fix_solidity_version_text (a' @ old_pragma @ b)"
        by (subst pragma_unfold) (simp add: strip_old_pragma_context [OF ne] Some)
      moreover have "fix_solidity_version_text a = new_pragma @ fix_solidity_version_text a'"
        by (subst pragma_unfold) (simp add: Some)
      ultimately show ?thesis using ih by simp
    next
      case None
      from 1 Cons have ih: "fix_solidity_version_text (a1 @ old_pragma @ b)
         = fix_solidity_version_text a1 @ new_pragma @ fix_solidity_version_text b" by simp
      have "fix_solidity_version_text (a @ old_pragma @ b)
              = (case a @ old_pragma @ b of [] \<Rightarrow> [] | c # cs \<Rightarrow> c # fix_solidity_version_text cs)"
        by (subst pragma_unfold) (simp add: strip_old_pragma_context [OF ne] None)
      then have "fix_solidity_version_text (a @ old_pragma @ b)
              = c # fix_solidity_version_text (a1 @ old_pragma @ b)"
        by (simp add: Cons)
      moreover have "fix_solidity_version_text a
              = (case a of [] \<Rightarrow> [] | c # cs \<Rightarrow> c # fix_solidity_version_text cs)"
        by (subst pragma_unfold) (simp add: None)
      then have "fix_solidity_version_text a = c # fix_solidity_version_text a1"
        by (simp add: Cons)
      ultimately show ?thesis using ih by simp
    qed
  qed
qed

lemma pragma_no_occurrence:
  "\<not> sublist old_pragma x \<Longrightarrow> fix_solidity_version_text x = x"
proof (induction x)
  case Nil
  then show ?case by (simp add: pragma_Nil)
next
  case (Cons c cs)
  from Cons.prems have "\<not> prefix old_pragma (c # cs)" and "\<not> sublist old_pragma cs"
    by (auto simp: sublist_Cons_right)
  then have "strip_prefix old_pragma (c # cs) = None" and "fix_solidity_version_text cs = cs"
    using Cons.IH by (simp_all add: strip_prefix_None)
  then show ?case
    by (subst pragma_unfold) simp
qed

lemma pragma_prefix_back:
  "CHR ''p'' \<notin> set t \<Longrightarrow> prefix t (fix_solidity_version_text s) \<Longrightarrow> prefix t s"
proof (induction s arbitrary: t rule: length_induct)
  case (1 s)
  show ?case
  proof (cases "strip_prefix old_pragma s")
    case (Some rest)
    then have "fix_solidity_version_text s = new_pragma @ fix_solidity_version_text rest"
      by (subst pragma_unfold) simp
    with "1.prems" have "t = []"
      by (cases t) (auto simp: new_pragma_def)
    then show ?thesis by simp
  next
    case None
    show ?thesis
    proof (cases s)
      case Nil
      with "1.prems" show ?thesis by (simp add: pragma_Nil)
    next
      case (Cons c cs)
      have "fix_solidity_version_text s
              = (case s of [] \<Rightarrow> [] | c # cs \<Rightarrow> c # fix_solidity_version_text cs)"
        by (subst pragma_unfold) (simp add: None)
      then have u: "fix_solidity_version_text s = c # fix_solidity_version_text cs"
        by (simp add: Cons)
      show ?thesis
      proof (cases t)
        case Nil
        then show ?thesis by simp
      next
        case (Cons d t')
        with "1.prems" u have "d = c" "prefix t' (fix_solidity_version_text cs)" "CHR ''p'' \<notin> set t'"
          by auto
        moreover from "1.IH" \<open>s = c # cs\<close> have
          "\<And>t. CHR ''p'' \<notin> set t \<Longrightarrow> prefix t (fix_solidity_version_text cs) \<Longrightarrow> prefix t cs"
          by simp
        ultimately show ?thesis using Cons \<open>s = c # cs\<close> by simp
      qed
    qed
  qed
qed

lemma pragma_not_prefix_after:
  "\<not> prefix old_pragma (fix_solidity_version_text s)"
proof (cases "strip_prefix old_pragma s")
  case (Some rest)
  then have "fix_solidity_version_text s = new_pragma @ fix_solidity_version_text rest"
    by (subst pragma_unfold) simp
  then show ?thesis by (simp add: new_pragma_def old_pragma_def)
next
  case None
  show ?thesis
  proof (cases s)
    case Nil
    then show ?thesis by (simp add: pragma_Nil old_pragma_def)
  next
    case (Cons c cs)
    have "fix_solidity_version_text s
            = (case s of [] \<Rightarrow> [] | c # cs \<Rightarrow> c # fix_solidity_version_text cs)"
      by (subst pragma_unfold) (simp add: None)
    then have u: "fix_solidity_version_text s = c # fix_solidity_version_text cs"
      by (simp add: Cons)
    from old_pragma_hd obtain t where t: "old_pragma = CHR ''p'' # t" "CHR ''p'' \<notin> set t" by blast
    show ?thesis
    proof
      assume "prefix old_pragma (fix_solidity_version_text s)"
      then have "c = CHR ''p''" "prefix t (fix_solidity_version_text cs)"
        unfolding u t(1) by auto
      with pragma_prefix_back [OF t(2)] have "prefix old_pragma s"
        unfolding t(1) Cons by simp
      with None show False by (simp add: strip_prefix_None)
    qed
  qed
qed

lemma not_sublist_old_new: "sublist old_pragma (new_pragma @ z) \<longleftrightarrow> sublist old_pragma z"
  by (simp add: old_pragma_def new_pragma_def sublist_Cons_right)

lemma pragma_all_replaced: "\<not> sublist old_pragma (fix_solidity_version_text s)"
proof (induction s rule: length_induct)
  case (1 s)
  show ?case
  proof (cases "strip_prefix old_pragma s")
    case (Some rest)
    then have "s = old_pragma @ rest" by (simp add: strip_prefix_Some)
    then have "length rest < length s" by (simp add: old_pragma_def)
    with 1 have "\<not> sublist old_pragma (fix_solidity_version_text rest)" by blast
    moreover have "fix_solidity_version_text s = new_pragma @ fix_solidity_version_text rest"
      by (subst pragma_unfold) (simp add: Some)
    ultimately show ?thesis by (simp add: not_sublist_old_new)
  next
    case None
    show ?thesis
    proof (cases s)
      case Nil
      then show ?thesis by (simp add: pragma_Nil old_pragma_def)
    next
      case (Cons c cs)
      have "fix_solidity_version_text s
              = (case s of [] \<Rightarrow> [] | c # cs \<Rightarrow> c # fix_solidity_version_text cs)"
        by (subst pragma_unfold) (simp add: None)
      then have u: "fix_solidity_version_text s = c # fix_solidity_version_text cs"
        by (simp add: Cons)
      from 1 Cons have "\<not> sublist old_pragma (fix_solidity_version_text cs)" by simp
      moreover from pragma_not_prefix_after [of s]
      have "\<not> prefix old_pragma (c # fix_solidity_version_text cs)" unfolding u .
      ultimately show ?thesis unfolding u by (simp add: sublist_Cons_right)
    qed
  qed
qed

lemma pragma_idempotent:
  "fix_solidity_version_text (fix_solidity_version_text x) = fix_solidity_version_text x"
  by (rule pragma_no_occurrence) (rule pragma_all_replaced)

subsection \<open>The revert rule on arbitrary texts\<close>

text \<open>
  A replacement \<^verbatim>\<open>revert Name();\<close> has a space where a match needs an upper-case
  letter, so no match of the rewritten text starts at the front of a replacement or
  reaches into one from the left. A match can still start inside the name that was
  captured.
\<close>

lemma revert_Nil: "fix_revert_text [] = []"
  by (subst fix_revert_text_unfold) (simp add: revert_at_def)

lemma revert_unfold_Some:
  "revert_at s = Some (ident, rest) \<Longrightarrow>
     fix_revert_text s = ''revert '' @ ident @ ''();'' @ fix_revert_text rest"
  by (subst fix_revert_text_unfold) simp

lemma revert_unfold_None:
  "revert_at (c # cs) = None \<Longrightarrow> fix_revert_text (c # cs) = c # fix_revert_text cs"
  by (subst fix_revert_text_unfold) simp

lemma upper_alnum: "in_class c upper \<Longrightarrow> in_class c alnum"
  by (auto simp: in_class_def upper_def alnum_def)

lemma not_alnum_chars:
  "\<not> in_class CHR '')'' alnum" "\<not> in_class CHR '';'' alnum" "\<not> in_class CHR '' '' alnum"
  by (simp_all add: in_class_def alnum_def)

lemma alnum_revert: "list_all (\<lambda>c. in_class c alnum) ''revert''"
  by (simp add: in_class_def alnum_def)

lemma is_ident_alnum: "is_ident w \<Longrightarrow> list_all (\<lambda>c. in_class c alnum) w"
  by (auto simp: is_ident_def upper_alnum split: list.splits)

lemma is_ident_Cons: "is_ident (u # v) \<longleftrightarrow> in_class u upper \<and> list_all (\<lambda>c. in_class c alnum) v"
  by (simp add: is_ident_def)

lemma revert_prefix_back:
  "CHR '' '' \<notin> set t \<Longrightarrow> prefix (t @ '';'') (fix_revert_text s) \<Longrightarrow> prefix (t @ '';'') s"
proof (induction s arbitrary: t rule: length_induct)
  case (1 s)
  show ?case
  proof (cases "revert_at s")
    case (Some m)
    obtain ident rest where m: "m = (ident, rest)" by (cases m)
    from revert_unfold_Some [OF Some [unfolded m]] "1.prems"(2)
    have "prefix (t @ '';'') (''revert '' @ (ident @ ''();'' @ fix_revert_text rest))" by simp
    then consider "prefix (t @ '';'') ''revert ''"
      | us where "t @ '';'' = ''revert '' @ us"
      unfolding prefix_append by blast
    then have False
    proof cases
      case 1
      then have "set (t @ '';'') \<subseteq> set ''revert ''" by (rule set_mono_prefix)
      then show False by simp
    next
      case 2
      then have "CHR '' '' \<in> set (t @ '';'')" by simp
      with "1.prems"(1) show False by simp
    qed
    then show ?thesis ..
  next
    case None
    show ?thesis
    proof (cases s)
      case Nil
      with "1.prems" show ?thesis by (simp add: revert_Nil)
    next
      case (Cons c cs)
      from None have u: "fix_revert_text s = c # fix_revert_text cs"
        unfolding Cons by (rule revert_unfold_None)
      show ?thesis
      proof (cases t)
        case Nil
        with "1.prems"(2) u show ?thesis by (simp add: Cons)
      next
        case (Cons d t')
        with "1.prems" u have "d = c" "prefix (t' @ '';'') (fix_revert_text cs)" "CHR '' '' \<notin> set t'"
          by auto
        moreover from "1.IH" \<open>s = c # cs\<close> have
          "\<And>t. CHR '' '' \<notin> set t \<Longrightarrow> prefix (t @ '';'') (fix_revert_text cs) \<Longrightarrow> prefix (t @ '';'') cs"
          by simp
        ultimately show ?thesis using Cons \<open>s = c # cs\<close> by simp
      qed
    qed
  qed
qed

lemma revert_at_after: "revert_at (fix_revert_text s) = None"
proof (cases "revert_at s")
  case (Some m)
  obtain ident rest where m: "m = (ident, rest)" by (cases m)
  show ?thesis
    unfolding revert_unfold_Some [OF Some [unfolded m]]
    by (simp add: revert_at_def in_class_def upper_def)
next
  case None
  show ?thesis
  proof (rule ccontr)
    assume "revert_at (fix_revert_text s) \<noteq> None"
    then obtain ident r where "revert_at (fix_revert_text s) = Some (ident, r)" by auto
    then have eq: "fix_revert_text s = ''revert'' @ ident @ ''();'' @ r" and id: "is_ident ident"
      by (simp_all add: revert_at_Some)
    have "CHR '' '' \<notin> set (''revert'' @ ident @ ''()'')"
      using is_ident_alnum [OF id] not_alnum_chars(3) by (auto simp: list_all_iff)
    moreover have "prefix ((''revert'' @ ident @ ''()'') @ '';'') (fix_revert_text s)"
      unfolding eq by simp
    ultimately have "prefix ((''revert'' @ ident @ ''()'') @ '';'') s"
      by (rule revert_prefix_back)
    then obtain r' where "s = ''revert'' @ ident @ ''();'' @ r'"
      by (auto simp: prefix_def)
    with id have "revert_at s = Some (ident, r')" by (simp only: revert_at_Some simp_thms)
    with None show False by simp
  qed
qed

lemma re_search_pattern_Nil: "\<not> re_search pattern []"
  by (simp add: first_match_pattern revert_at_def)

lemma re_search_pattern_Cons:
  "re_search pattern (c # cs) \<longleftrightarrow> revert_at (c # cs) \<noteq> None \<or> re_search pattern cs"
  by (simp add: first_match_pattern split: option.splits)

declare re_search.simps [simp del]

lemma re_findall_pattern_unfold:
  "re_findall pattern s =
     (case revert_at s of
        Some (ident, rest) \<Rightarrow> ident # re_findall pattern rest
      | None \<Rightarrow> (case s of [] \<Rightarrow> [] | c # cs \<Rightarrow> re_findall pattern cs))"
proof (cases "revert_at s")
  case None
  then show ?thesis
    unfolding re_findall_def
    by (subst re_findall_from.simps) (simp add: first_match_pattern split: list.splits)
next
  case (Some m)
  obtain ident rest where m: "m = (ident, rest)" by (cases m)
  from Some m have ne: "rest \<noteq> s" using revert_at_shorter by fastforce
  have nil: "re_findall_from pattern False [] = []"
    by (subst re_findall_from.simps) (simp add: first_match_pattern revert_at_def)
  have "re_findall_from pattern False s =
          ident # (if rest = [] then [] else re_findall_from pattern (rest = s) rest)"
    by (subst re_findall_from.simps) (simp add: first_match_pattern Some m)
  also have "(if rest = [] then [] else re_findall_from pattern (rest = s) rest)
               = re_findall_from pattern False rest"
    using ne nil by simp
  finally show ?thesis
    unfolding re_findall_def by (simp add: Some m)
qed

lemma revert_length_ge: "length s \<le> length (fix_revert_text s)"
proof (induction s rule: length_induct)
  case (1 s)
  show ?case
  proof (cases "revert_at s")
    case (Some m)
    obtain ident rest where m: "m = (ident, rest)" by (cases m)
    from Some m have s: "s = ''revert'' @ ident @ ''();'' @ rest" by (simp add: revert_at_Some)
    then have "length rest < length s" by simp
    with 1 have "length rest \<le> length (fix_revert_text rest)" by blast
    then show ?thesis
      unfolding revert_unfold_Some [OF Some [unfolded m]] by (simp add: s)
  next
    case None
    show ?thesis
    proof (cases s)
      case Nil
      then show ?thesis by simp
    next
      case (Cons c cs)
      from None have "fix_revert_text s = c # fix_revert_text cs"
        unfolding Cons by (rule revert_unfold_None)
      with 1 Cons show ?thesis by simp
    qed
  qed
qed

lemma revert_length_gt: "re_search pattern s \<Longrightarrow> length s < length (fix_revert_text s)"
proof (induction s)
  case Nil
  then show ?case by (simp add: re_search_pattern_Nil)
next
  case (Cons c cs)
  show ?case
  proof (cases "revert_at (c # cs)")
    case (Some m)
    obtain ident rest where m: "m = (ident, rest)" by (cases m)
    from Some m have s: "c # cs = ''revert'' @ ident @ ''();'' @ rest" by (simp add: revert_at_Some)
    have "length (c # cs) = 9 + length ident + length rest"
      by (subst s) simp
    moreover have "length (fix_revert_text (c # cs)) = 10 + length ident + length (fix_revert_text rest)"
      unfolding revert_unfold_Some [OF Some [unfolded m]] by simp
    ultimately show ?thesis using revert_length_ge [of rest] by simp
  next
    case None
    with Cons.prems have "re_search pattern cs" by (simp add: re_search_pattern_Cons)
    with Cons.IH revert_unfold_None [OF None] show ?thesis by simp
  qed
qed

lemma revert_fixed_iff: "fix_revert_text s = s \<longleftrightarrow> \<not> re_search pattern s"
proof
  assume "fix_revert_text s = s"
  with revert_length_gt [of s] show "\<not> re_search pattern s" by auto
next
  assume "\<not> re_search pattern s"
  then show "fix_revert_text s = s"
    by (simp add: fix_revert_text_def re_sub_def re_sub_from_no_match)
qed

lemma nested_revert_Nil: "\<not> nested_revert []"
  by (simp add: nested_revert_def)

lemma nested_revert_Cons:
  "nested_revert (c # v) \<longleftrightarrow>
     (\<exists>u. in_class u upper \<and> prefix (''revert'' @ [u]) (c # v)) \<or> nested_revert v"
  unfolding nested_revert_def by (subst sublist_Cons_right) blast

lemma revert_at_alnum_run:
  assumes "list_all (\<lambda>c. in_class c alnum) v"
  shows "revert_at (v @ ''();'' @ z) \<noteq> None
           \<longleftrightarrow> (\<exists>u. in_class u upper \<and> prefix (''revert'' @ [u]) v)"
proof
  assume "revert_at (v @ ''();'' @ z) \<noteq> None"
  then obtain ident r where "revert_at (v @ ''();'' @ z) = Some (ident, r)" by auto
  then have eq: "v @ ''();'' @ z = ''revert'' @ ident @ ''();'' @ r" and id: "is_ident ident"
    by (simp_all add: revert_at_Some)
  from id obtain u w where uw: "ident = u # w" "in_class u upper"
    by (auto simp: is_ident_def split: list.splits)
  from eq uw have "v @ (''();'' @ z) = (''revert'' @ [u]) @ (w @ ''();'' @ r)" by simp
  then consider us where "v = (''revert'' @ [u]) @ us"
    | us where "v @ us = ''revert'' @ [u]" "''();'' @ z = us @ (w @ ''();'' @ r)"
    unfolding append_eq_append_conv2 by blast
  then have "prefix (''revert'' @ [u]) v"
  proof cases
    case 1
    then show ?thesis by (simp add: prefix_def)
  next
    case 2
    show ?thesis
    proof (cases us)
      case Nil
      with 2(1) show ?thesis by simp
    next
      case (Cons x xs)
      with 2(2) have "x = CHR ''(''" by simp
      moreover from 2(1) Cons have "x \<in> set (''revert'' @ [u])"
        by (metis in_set_conv_decomp append_assoc)
      ultimately have "u = CHR ''(''" by auto
      with uw(2) upper_alnum not_alnum_paren show ?thesis by blast
    qed
  qed
  with uw(2) show "\<exists>u. in_class u upper \<and> prefix (''revert'' @ [u]) v" by blast
next
  assume "\<exists>u. in_class u upper \<and> prefix (''revert'' @ [u]) v"
  then obtain u w where u: "in_class u upper" and v: "v = ''revert'' @ u # w"
    by (auto simp: prefix_def)
  from assms v have "list_all (\<lambda>c. in_class c alnum) w" by simp
  with u have "is_ident (u # w)" by (simp add: is_ident_Cons)
  moreover have "v @ ''();'' @ z = ''revert'' @ (u # w) @ ''();'' @ z"
    by (simp add: v)
  ultimately have "revert_at (v @ ''();'' @ z) = Some (u # w, z)"
    by (simp only: revert_at_Some simp_thms)
  then show "revert_at (v @ ''();'' @ z) \<noteq> None" by simp
qed

lemma re_search_call_suffix: "re_search pattern (''();'' @ z) \<longleftrightarrow> re_search pattern z"
  by (simp add: re_search_pattern_Cons revert_at_def)

lemma re_search_alnum_run:
  "list_all (\<lambda>c. in_class c alnum) v \<Longrightarrow>
     re_search pattern (v @ ''();'' @ z) \<longleftrightarrow> nested_revert v \<or> re_search pattern z"
proof (induction v)
  case Nil
  show ?case using re_search_call_suffix [of z] by (simp add: nested_revert_Nil)
next
  case (Cons c v)
  from Cons.prems have v: "list_all (\<lambda>c. in_class c alnum) v" by simp
  have "re_search pattern ((c # v) @ ''();'' @ z)
          \<longleftrightarrow> revert_at ((c # v) @ ''();'' @ z) \<noteq> None \<or> re_search pattern (v @ ''();'' @ z)"
    using re_search_pattern_Cons [of c "v @ ''();'' @ z"] by simp
  then show ?case
    unfolding revert_at_alnum_run [OF Cons.prems] Cons.IH [OF v] nested_revert_Cons by blast
qed

lemma re_search_replacement:
  assumes "is_ident ident"
  shows "re_search pattern (''revert '' @ ident @ ''();'' @ z)
           \<longleftrightarrow> nested_revert ident \<or> re_search pattern z"
proof -
  have "re_search pattern (''revert '' @ w) \<longleftrightarrow> re_search pattern w" for w
    by (simp add: re_search_pattern_Cons revert_at_def in_class_def upper_def)
  then show ?thesis
    using re_search_alnum_run [OF is_ident_alnum [OF assms]] by simp
qed

lemma re_search_after:
  "re_search pattern (fix_revert_text s) \<longleftrightarrow> (\<exists>w \<in> set (re_findall pattern s). nested_revert w)"
proof (induction s rule: length_induct)
  case (1 s)
  show ?case
  proof (cases "revert_at s")
    case (Some m)
    obtain ident rest where m: "m = (ident, rest)" by (cases m)
    from Some m have s: "s = ''revert'' @ ident @ ''();'' @ rest" and id: "is_ident ident"
      by (simp_all add: revert_at_Some)
    from s have "length rest < length s" by simp
    with 1 have ih: "re_search pattern (fix_revert_text rest)
        \<longleftrightarrow> (\<exists>w \<in> set (re_findall pattern rest). nested_revert w)" by blast
    have f: "re_findall pattern s = ident # re_findall pattern rest"
      by (subst re_findall_pattern_unfold) (simp add: Some m)
    show ?thesis
      unfolding revert_unfold_Some [OF Some [unfolded m]] re_search_replacement [OF id] ih f
      by simp
  next
    case None
    show ?thesis
    proof (cases s)
      case Nil
      then show ?thesis
        by (subst re_findall_pattern_unfold) (simp add: revert_Nil re_search_pattern_Nil revert_at_def)
    next
      case (Cons c cs)
      from None have u: "fix_revert_text s = c # fix_revert_text cs"
        unfolding Cons by (rule revert_unfold_None)
      have "re_findall pattern s
              = (case s of [] \<Rightarrow> [] | c # cs \<Rightarrow> re_findall pattern cs)"
        by (subst re_findall_pattern_unfold) (simp add: None)
      then have f: "re_findall pattern s = re_findall pattern cs"
        by (simp add: Cons)
      from revert_at_after [of s] have "revert_at (c # fix_revert_text cs) = None"
        unfolding u .
      then have "re_search pattern (fix_revert_text s) \<longleftrightarrow> re_search pattern (fix_revert_text cs)"
        unfolding u by (simp add: re_search_pattern_Cons)
      with 1 Cons f show ?thesis by simp
    qed
  qed
qed

lemma revert_idempotent_iff:
  "fix_revert_text (fix_revert_text x) = fix_revert_text x
     \<longleftrightarrow> (\<forall>w \<in> set (re_findall pattern x). \<not> nested_revert w)"
  unfolding revert_fixed_iff re_search_after by blast

lemma revert_at_context_Some:
  "revert_at a = Some (ident, r) \<Longrightarrow> revert_at (a @ m) = Some (ident, r @ m)"
  by (simp add: revert_at_Some)

lemma open_revert_append: "open_revert b \<Longrightarrow> open_revert (a @ b)"
proof -
  assume "open_revert b"
  then obtain a1 w where "b = a1 @ ''revert'' @ w" "is_ident w"
    unfolding open_revert_def by blast
  then have "a @ b = (a @ a1) @ ''revert'' @ w \<and> is_ident w" by simp
  then show ?thesis unfolding open_revert_def by blast
qed

lemma open_revert_length: "open_revert a \<Longrightarrow> 7 \<le> length a"
proof -
  assume "open_revert a"
  then obtain a1 w where a: "a = a1 @ ''revert'' @ w" and "is_ident w"
    unfolding open_revert_def by blast
  then have "w \<noteq> []" by (auto simp: is_ident_def)
  then have "1 \<le> length w" by (cases w) simp_all
  with a show ?thesis by simp
qed

lemma is_ident_prefix: "is_ident (ws @ vs) \<Longrightarrow> ws \<noteq> [] \<Longrightarrow> is_ident ws"
  by (cases ws) (auto simp: is_ident_def)

lemma revert_overlap:
  assumes "a @ ws = ''revert''" and "a \<noteq> []" and "ws \<noteq> []"
  shows "\<not> prefix ws (''revert'' @ m)"
proof -
  from assms(1) have a: "a = take (length a) ''revert''" and ws: "ws = drop (length a) ''revert''"
    by (metis append_eq_conv_conj)+
  from assms(1) have "length (a @ ws) = length ''revert''" by (rule arg_cong)
  then have "length a + length ws = 6" by simp
  moreover from assms(2,3) have "0 < length a" "0 < length ws" by simp_all
  ultimately have "length a \<in> {1, 2, 3, 4, 5}"
    by (simp del: length_greater_0_conv) arith
  then show ?thesis
    using ws by (elim insertE) (auto simp: prefix_def)
qed


lemma is_ident_append: "is_ident w \<Longrightarrow> list_all (\<lambda>c. in_class c alnum) y \<Longrightarrow> is_ident (w @ y)"
  by (cases w) (auto simp: is_ident_def)

lemma upper_chars: "\<not> in_class CHR ''r'' upper" "\<not> in_class CHR '' '' upper"
  by (simp_all add: in_class_def upper_def)

text \<open>
  When a match starts at the front of \<open>a\<close> followed by \<^verbatim>\<open>revert\<close>, but none at the
  front of \<open>a\<close> alone, then \<open>a\<close> is \<^verbatim>\<open>revert\<close> with the first part of the captured
  identifier.
\<close>

lemma revert_at_behind:
  assumes none: "revert_at a = None" and ne: "a \<noteq> []"
    and some: "revert_at (a @ ''revert'' @ m') = Some (ident, r)"
  shows "\<exists>ws. a = ''revert'' @ ws \<and> is_ident ws"
proof -
  let ?m = "''revert'' @ m'"
  from some have eq: "a @ ?m = (''revert'' @ ident @ ''();'') @ r" and id: "is_ident ident"
    by (simp_all add: revert_at_Some)
  from id obtain u0 i0 where ident: "ident = u0 # i0" and u0: "in_class u0 upper"
    by (auto simp: is_ident_def split: list.splits)
  from eq consider us where "a = (''revert'' @ ident @ ''();'') @ us"
    | us where "a @ us = ''revert'' @ ident @ ''();''" "?m = us @ r"
    unfolding append_eq_append_conv2 by blast
  then show ?thesis
  proof cases
    case 1
    with id have "revert_at a = Some (ident, us)" by (simp only: revert_at_Some append_assoc simp_thms)
    with none show ?thesis by simp
  next
    case 2
    show ?thesis
    proof (cases us)
      case Nil
      with 2(1) id have "revert_at a = Some (ident, [])"
        by (simp only: revert_at_Some append_Nil2 simp_thms)
      with none show ?thesis by simp
    next
      case (Cons x xs)
      with 2(2) have x: "x = CHR ''r''" by simp
      from 2(1) have "a @ us = (''revert'' @ ident) @ ''();''" by simp
      then consider vs where "a = (''revert'' @ ident) @ vs" "vs @ us = ''();''"
        | vs where "a @ vs = ''revert'' @ ident" "us = vs @ ''();''"
        unfolding append_eq_append_conv2 by blast
      then show ?thesis
      proof cases
        case 1
        from 1(2) Cons have "x \<in> set ''();''"
          by (metis in_set_conv_decomp)
        with x show ?thesis by simp
      next
        case 2
        from 2(1) consider ws where "a = ''revert'' @ ws" "ws @ vs = ident"
          | ws where "a @ ws = ''revert''" "vs = ws @ ident" "ws \<noteq> []"
          unfolding append_eq_append_conv2 by (metis append_Nil2 append_Nil)
        then show ?thesis
        proof cases
          case 1
          show ?thesis
          proof (cases ws)
            case Nil
            with 1(2) 2(2) ident have "us = u0 # i0 @ ''();''" by simp
            with Cons x u0 show ?thesis by (simp add: upper_chars)
          next
            case (Cons y ys)
            with 1(2) id have "is_ident ws" by (intro is_ident_prefix [of ws vs]) simp_all
            with 1(1) show ?thesis by blast
          qed
        next
          case 2
          note inner = 2
          from inner(2) \<open>us = vs @ ''();''\<close> \<open>?m = us @ r\<close>
          have "?m = ws @ (ident @ ''();'' @ r)" by simp
          then have "prefix ws ?m" by (metis prefixI)
          with revert_overlap [OF inner(1) ne inner(3), of m'] show ?thesis by simp
        qed
      qed
    qed
  qed
qed

lemma revert_at_context_None:
  assumes none: "revert_at a = None" and ne: "a \<noteq> []" and op: "\<not> open_revert a"
  shows "revert_at (a @ ''revert'' @ m') = None"
proof (rule ccontr)
  assume "revert_at (a @ ''revert'' @ m') \<noteq> None"
  then obtain ident r where "revert_at (a @ ''revert'' @ m') = Some (ident, r)" by auto
  from revert_at_behind [OF none ne this] obtain ws where "a = [] @ ''revert'' @ ws" "is_ident ws"
    by auto
  then have "open_revert a" unfolding open_revert_def by blast
  with op show False by simp
qed

text \<open>
  A statement is rewritten with the texts before and behind it rewritten on their own,
  if the text before it does not end with \<^verbatim>\<open>revert\<close> and an identifier.
\<close>

lemma revert_split:
  assumes id: "is_ident ident"
  shows "\<not> open_revert a \<Longrightarrow>
     fix_revert_text (a @ ''revert'' @ ident @ ''();'' @ rest)
       = fix_revert_text a @ ''revert '' @ ident @ ''();'' @ fix_revert_text rest"
proof (induction a rule: length_induct)
  case (1 a)
  let ?m = "''revert'' @ ident @ ''();'' @ rest"
  show ?case
  proof (cases a)
    case Nil
    have "revert_at ?m = Some (ident, rest)"
      using id by (simp only: revert_at_Some simp_thms)
    from revert_unfold_Some [OF this] show ?thesis by (simp add: Nil revert_Nil)
  next
    case (Cons c a1)
    then have ne: "a \<noteq> []" by simp
    show ?thesis
    proof (cases "revert_at a")
      case (Some p)
      obtain w r where p: "p = (w, r)" by (cases p)
      from Some p have a: "a = (''revert'' @ w @ ''();'') @ r" by (simp add: revert_at_Some)
      then have "length r < length a" by simp
      moreover from "1.prems" a have "\<not> open_revert r"
        using open_revert_append [of r "''revert'' @ w @ ''();''"] by auto
      ultimately have ih: "fix_revert_text (r @ ?m)
        = fix_revert_text r @ ''revert '' @ ident @ ''();'' @ fix_revert_text rest"
        using 1 by blast
      from revert_unfold_Some [OF revert_at_context_Some [OF Some [unfolded p], of ?m]]
        revert_unfold_Some [OF Some [unfolded p]] ih
      show ?thesis by simp
    next
      case None
      from "1.prems" Cons have "\<not> open_revert a1"
        using open_revert_append [of a1 "[c]"] by auto
      with 1 Cons have ih: "fix_revert_text (a1 @ ?m)
        = fix_revert_text a1 @ ''revert '' @ ident @ ''();'' @ fix_revert_text rest"
        by simp
      from revert_at_context_None [OF None ne "1.prems", of "ident @ ''();'' @ rest"]
      have "revert_at (c # (a1 @ ?m)) = None" by (simp add: Cons)
      from revert_unfold_None [OF this] revert_unfold_None [OF None [unfolded Cons]] ih
      show ?thesis by (simp add: Cons)
    qed
  qed
qed

lemma re_search_has_paren: "re_search pattern s \<Longrightarrow> CHR ''('' \<in> set s"
proof (induction s)
  case Nil
  then show ?case by (simp add: re_search_pattern_Nil)
next
  case (Cons c cs)
  show ?case
  proof (cases "revert_at (c # cs)")
    case None
    with Cons show ?thesis by (simp add: re_search_pattern_Cons)
  next
    case (Some m)
    obtain w r where "m = (w, r)" by (cases m)
    with Some have "c # cs = ''revert'' @ w @ ''();'' @ r" by (simp add: revert_at_Some)
    then have "CHR ''('' \<in> set (c # cs)" by (simp only: set_append) simp
    then show ?thesis .
  qed
qed

lemma revert_alnum_fixed:
  assumes "list_all (\<lambda>c. in_class c alnum) v"
  shows "fix_revert_text v = v"
proof -
  have "\<not> in_class CHR ''('' alnum" by (simp add: in_class_def alnum_def)
  with assms have "CHR ''('' \<notin> set v" by (auto simp: list_all_iff)
  with re_search_has_paren [of v] show ?thesis by (auto simp: revert_fixed_iff)
qed

lemma open_revert_behind:
  assumes "open_revert (pre @ [x] @ r)" and x: "\<not> in_class x alnum"
  shows "open_revert r"
proof -
  from assms(1) obtain a1 w where eq: "(pre @ [x]) @ r = a1 @ (''revert'' @ w)" and id: "is_ident w"
    unfolding open_revert_def by auto
  from eq consider us where "pre @ [x] = a1 @ us" "us @ r = ''revert'' @ w"
    | us where "r = us @ ''revert'' @ w"
    unfolding append_eq_append_conv2 by blast
  then show ?thesis
  proof cases
    case 1
    show ?thesis
    proof (cases "us = []")
      case True
      with 1(2) have "r = [] @ ''revert'' @ w" by simp
      with id show ?thesis unfolding open_revert_def by blast
    next
      case False
      with 1(1) have "last us = x" by (metis last_appendR last_snoc)
      with False have "x \<in> set us" by (metis last_in_set)
      then have "x \<in> set (us @ r)" by simp
      then have "x \<in> set (''revert'' @ w)" unfolding 1(2) .
      with is_ident_alnum [OF id] alnum_revert have "in_class x alnum"
        by (auto simp: list_all_iff)
      with x show ?thesis by simp
    qed
  next
    case 2
    with id show ?thesis unfolding open_revert_def by blast
  qed
qed

lemma open_revert_Cons:
  assumes "open_revert (c # a)"
  shows "(\<exists>w. c # a = ''revert'' @ w \<and> is_ident w) \<or> open_revert a"
proof -
  from assms obtain a1 w where eq: "c # a = a1 @ ''revert'' @ w" and id: "is_ident w"
    unfolding open_revert_def by blast
  show ?thesis
  proof (cases a1)
    case Nil
    with eq id show ?thesis by auto
  next
    case (Cons d a2)
    with eq have "a = a2 @ ''revert'' @ w" by simp
    with id show ?thesis unfolding open_revert_def by blast
  qed
qed

text \<open>
  Behind \<^verbatim>\<open>revert\<close> and an identifier the statement is part of a longer match, and
  the result is not the one with this statement rewritten, whatever follows it.
\<close>

lemma revert_no_split:
  assumes id: "is_ident ident"
  shows "open_revert a \<Longrightarrow>
     fix_revert_text (a @ ''revert'' @ ident @ ''();'' @ rest)
       \<noteq> fix_revert_text a @ ''revert '' @ ident @ ''();'' @ z"
proof (induction a rule: length_induct)
  case (1 a)
  let ?m = "''revert'' @ ident @ ''();'' @ rest"
  from open_revert_length [OF "1.prems"] obtain c a1 where Cons: "a = c # a1"
    by (cases a) auto
  then have ne: "a \<noteq> []" by simp
  show ?case
  proof (cases "revert_at a")
    case (Some p)
    obtain w r where p: "p = (w, r)" by (cases p)
    from Some p have a: "a = (''revert'' @ w @ ''()'') @ [CHR '';''] @ r" by (simp add: revert_at_Some)
    then have "length r < length a" by simp
    moreover from "1.prems" have "open_revert r"
      unfolding a by (rule open_revert_behind) (simp add: not_alnum_chars)
    ultimately have ih: "fix_revert_text (r @ ?m)
        \<noteq> fix_revert_text r @ ''revert '' @ ident @ ''();'' @ z"
      using 1 by blast
    from revert_unfold_Some [OF revert_at_context_Some [OF Some [unfolded p], of ?m]]
      revert_unfold_Some [OF Some [unfolded p]] ih
    show ?thesis by simp
  next
    case None
    show ?thesis
    proof (cases "revert_at (a @ ?m)")
      case inner: None
      have "open_revert a1"
      proof (rule ccontr)
        assume "\<not> open_revert a1"
        with open_revert_Cons [OF "1.prems" [unfolded Cons]] Cons
        obtain w where w: "a = ''revert'' @ w" "is_ident w" by auto
        have "list_all (\<lambda>c. in_class c alnum) (''revert'' @ ident)"
          using alnum_revert is_ident_alnum [OF id] by simp
        from is_ident_append [OF w(2) this]
        have "revert_at (''revert'' @ (w @ ''revert'' @ ident) @ ''();'' @ rest)
                = Some (w @ ''revert'' @ ident, rest)"
          by (simp only: revert_at_Some simp_thms)
        with inner w(1) show False by simp
      qed
      with 1 Cons have ih: "fix_revert_text (a1 @ ?m)
          \<noteq> fix_revert_text a1 @ ''revert '' @ ident @ ''();'' @ z"
        by simp
      from inner have "revert_at (c # (a1 @ ?m)) = None" by (simp add: Cons)
      from revert_unfold_None [OF this] revert_unfold_None [OF None [unfolded Cons]] ih
      show ?thesis by (simp add: Cons)
    next
      case (Some q)
      obtain i r where q: "q = (i, r)" by (cases q)
      from Some q have s: "revert_at (a @ ''revert'' @ (ident @ ''();'' @ rest)) = Some (i, r)"
        by simp
      from revert_at_behind [OF None ne s] obtain ws where ws: "a = ''revert'' @ ws" "is_ident ws"
        by blast
      from ws(2) obtain u ws' where u: "ws = u # ws'" "in_class u upper"
        by (auto simp: is_ident_def split: list.splits)
      have "list_all (\<lambda>c. in_class c alnum) a"
        unfolding ws(1) using alnum_revert is_ident_alnum [OF ws(2)] by simp
      then have fa: "fix_revert_text a = a" by (rule revert_alnum_fixed)
      from u(2) have "u \<noteq> CHR '' ''" using upper_chars(2) by auto
      have l: "fix_revert_text (a @ ?m) = ''revert '' @ (i @ ''();'' @ fix_revert_text r)"
        using revert_unfold_Some [OF Some [unfolded q]] by simp
      have rr: "fix_revert_text a @ ''revert '' @ ident @ ''();'' @ z
                  = ''revert'' @ u # (ws' @ ''revert '' @ ident @ ''();'' @ z)"
        unfolding fa by (simp add: ws(1) u(1))
      from \<open>u \<noteq> CHR '' ''\<close> show ?thesis
        unfolding l rr by simp
    qed
  qed
qed

lemma revert_split_iff:
  assumes "is_ident ident"
  shows "fix_revert_text (a @ ''revert'' @ ident @ ''();'' @ rest)
           = fix_revert_text a @ ''revert '' @ ident @ ''();'' @ fix_revert_text rest
         \<longleftrightarrow> \<not> open_revert a"
  using revert_split [OF assms, of a rest] revert_no_split [OF assms, of a rest "fix_revert_text rest"]
  by blast


subsection \<open>Line ends and the characters of a rewritten file\<close>

text \<open>
  Reading leaves no carriage return, and neither rule adds one, so a text that was
  written is read back as it was. Where \<^verbatim>\<open>os.linesep\<close> is a line feed, writing
  stores the text as it is.
\<close>

lemma universal_newlines_no_CR: "CR \<notin> set (universal_newlines s)"
  by (induction s rule: universal_newlines.induct) auto

lemma universal_newlines_Cons:
  "c \<noteq> CR \<Longrightarrow> universal_newlines (c # s) = c # universal_newlines s"
  by (cases s) simp_all

lemma universal_newlines_id: "CR \<notin> set s \<Longrightarrow> universal_newlines s = s"
  by (induction s) (auto simp: universal_newlines_Cons)

lemma write_newlines_posix: "write_newlines False s = s"
  by (induction s) (simp_all add: write_newlines_def os_linesep_def)

lemma read_written: "CR \<notin> set s \<Longrightarrow> universal_newlines (write_newlines on_windows s) = s"
proof (induction s)
  case Nil
  then show ?case by (simp add: write_newlines_def)
next
  case (Cons c s)
  then have ih: "universal_newlines (write_newlines on_windows s) = s" and c: "c \<noteq> CR" by auto
  show ?case
  proof (cases "c = LF \<and> on_windows")
    case True
    have "write_newlines on_windows (c # s) = CR # LF # write_newlines on_windows s"
      using True by (simp add: write_newlines_def os_linesep_def)
    with ih True show ?thesis by simp
  next
    case False
    then have "write_newlines on_windows (c # s) = c # write_newlines on_windows s"
      by (auto simp: write_newlines_def os_linesep_def)
    with ih c show ?thesis by (simp add: universal_newlines_Cons)
  qed
qed

lemma fix_revert_text_chars: "set (fix_revert_text s) \<subseteq> set s \<union> {CHR '' ''}"
proof (induction s rule: length_induct)
  case (1 s)
  show ?case
  proof (cases "revert_at s")
    case (Some m)
    obtain ident rest where m: "m = (ident, rest)" by (cases m)
    from Some m have s: "s = ''revert'' @ ident @ ''();'' @ rest" by (simp add: revert_at_Some)
    then have "length rest < length s" by simp
    with 1 have "set (fix_revert_text rest) \<subseteq> set rest \<union> {CHR '' ''}" by blast
    then show ?thesis
      unfolding revert_unfold_Some [OF Some [unfolded m]] by (auto simp: s)
  next
    case None
    show ?thesis
    proof (cases s)
      case Nil
      then show ?thesis by (simp add: revert_Nil)
    next
      case (Cons c cs)
      with 1 have "set (fix_revert_text cs) \<subseteq> set cs \<union> {CHR '' ''}" by simp
      then show ?thesis
        unfolding Cons revert_unfold_None [OF None [unfolded Cons]] by auto
    qed
  qed
qed

lemma fix_solidity_version_text_chars:
  "set (fix_solidity_version_text s) \<subseteq> set s \<union> set new_pragma"
proof (induction s rule: length_induct)
  case (1 s)
  show ?case
  proof (cases "strip_prefix old_pragma s")
    case (Some rest)
    then have s: "s = old_pragma @ rest" by (simp add: strip_prefix_Some)
    then have "length rest < length s" by (simp add: old_pragma_def)
    with 1 have "set (fix_solidity_version_text rest) \<subseteq> set rest \<union> set new_pragma" by blast
    moreover have "fix_solidity_version_text s = new_pragma @ fix_solidity_version_text rest"
      by (subst pragma_unfold) (simp add: Some)
    ultimately show ?thesis unfolding s by auto
  next
    case None
    show ?thesis
    proof (cases s)
      case Nil
      then show ?thesis by (simp add: pragma_Nil)
    next
      case (Cons c cs)
      with 1 have "set (fix_solidity_version_text cs) \<subseteq> set cs \<union> set new_pragma" by simp
      moreover have "fix_solidity_version_text s = c # fix_solidity_version_text cs"
        using None by (subst pragma_unfold) (simp add: Cons)
      ultimately show ?thesis unfolding Cons by auto
    qed
  qed
qed

lemma revert_rule_no_CR:
  "CR \<notin> set (re_sub (rule_pattern revert_rule) (rule_repl revert_rule) (universal_newlines raw))"
proof -
  have "re_sub (rule_pattern revert_rule) (rule_repl revert_rule) s = fix_revert_text s" for s
    by (simp add: revert_rule_def fix_revert_text_def)
  with fix_revert_text_chars [of "universal_newlines raw"] universal_newlines_no_CR [of raw]
  show ?thesis by auto
qed

lemma pragma_rule_no_CR:
  "CR \<notin> set (re_sub (rule_pattern pragma_rule) (rule_repl pragma_rule) (universal_newlines raw))"
proof -
  have "re_sub (rule_pattern pragma_rule) (rule_repl pragma_rule) s = fix_solidity_version_text s" for s
    by (simp add: pragma_rule_def fix_solidity_version_text_def)
  moreover have "CR \<notin> set new_pragma" by (simp add: new_pragma_def)
  ultimately show ?thesis
    using fix_solidity_version_text_chars [of "universal_newlines raw"] universal_newlines_no_CR [of raw]
    by auto
qed

text \<open>
  A file that is written back holds other characters than before, when the new text
  has no carriage return: read again, it gives the new text.
\<close>

lemma rewritten_differs:
  assumes "CR \<notin> set (re_sub (rule_pattern r) (rule_repl r) (universal_newlines raw))"
  shows "rewritten r w raw \<noteq> raw
           \<longleftrightarrow> re_sub (rule_pattern r) (rule_repl r) (universal_newlines raw) \<noteq> universal_newlines raw"
proof -
  let ?new = "re_sub (rule_pattern r) (rule_repl r) (universal_newlines raw)"
  have "written w ?new \<noteq> raw" if "?new \<noteq> universal_newlines raw"
  proof
    assume "written w ?new = raw"
    then have "universal_newlines (written w ?new) = universal_newlines raw" by simp
    with read_written [OF assms, of "windows w"] that show False by (simp add: written_def)
  qed
  then show ?thesis by (auto simp: rewritten_def Let_def)
qed

lemma read_rewritten:
  assumes "CR \<notin> set (re_sub (rule_pattern r) (rule_repl r) (universal_newlines raw))"
  shows "universal_newlines (rewritten r w raw)
           = re_sub (rule_pattern r) (rule_repl r) (universal_newlines raw)"
  using read_written [OF assms, of "windows w"] by (simp add: rewritten_def Let_def written_def)

subsection \<open>The start of a run\<close>

lemma fresh_simps [simp]:
  "disk (fresh w) = disk w" "windows (fresh w) = windows w" "unwritable (fresh w) = unwritable w"
  "write_fails (fresh w) = write_fails w" "unprintable (fresh w) = unprintable w"
  "stdout (fresh w) = []" "calls (fresh w) = []"
  by (simp_all add: fresh_def)

lemma fresh_derived [simp]:
  "read_text (fresh w) p = read_text w p" "written (fresh w) s = written w s"
  "rewritten r (fresh w) raw = rewritten r w raw" "changed r (fresh w) p = changed r w p"
  by (simp_all add: read_text_def written_def rewritten_def changed_def Let_def)

lemma rewrite_tree_run_paths:
  "rewrite_tree r join topdir root w = run_paths r (sol_paths join (os_walk_top join topdir root)) w"
  by (simp add: rewrite_tree_def for_walk_run_paths)

lemma changed_iff:
  "read_text w p = Some content \<Longrightarrow>
     changed r w p \<longleftrightarrow> re_sub (rule_pattern r) (rule_repl r) content \<noteq> content"
  by (simp add: changed_def)

lemma rewritten_eq:
  "disk w p = Some raw \<Longrightarrow> read_text w p = Some content \<Longrightarrow>
     rewritten r w raw =
       (if re_sub (rule_pattern r) (rule_repl r) content = content then raw
        else written w (re_sub (rule_pattern r) (rule_repl r) content))"
  by (auto simp: rewritten_def read_text_def Let_def)

lemma no_match_unchanged:
  "read_text w p = Some content \<Longrightarrow> \<not> re_search (rule_pattern r) content \<Longrightarrow> \<not> changed r w p"
  by (simp add: changed_def re_sub_def re_sub_from_no_match)

lemma rule_cases_no_CR:
  "r = revert_rule \<or> r = pragma_rule \<Longrightarrow>
     CR \<notin> set (re_sub (rule_pattern r) (rule_repl r) (universal_newlines raw))"
  using revert_rule_no_CR pragma_rule_no_CR by blast

subsection \<open>The example runs\<close>

lemma ex_run:
  "fst (rewrite_tree revert_rule posix_join ''c'' (Some example_tree)
          (fresh (example_world False example_texts))) = None"
  by code_simp

lemma ex_distinct: "distinct (sol_paths posix_join (os_walk_top posix_join ''c'' (Some example_tree)))"
  by code_simp

lemma ex_paths:
  "''c/A.sol'' \<in> set (sol_paths posix_join (os_walk_top posix_join ''c'' (Some example_tree)))"
  "''c/lib/B.sol'' \<in> set (sol_paths posix_join (os_walk_top posix_join ''c'' (Some example_tree)))"
  by code_simp+

section \<open>The claims\<close>

text \<open>
  C1 (content after processing), as stated: a file that was processed holds either
  its original bytes or the result of the substitution on them. This fails in two
  ways. The files are read and written in text mode: a file that ends its lines with
  carriage return and line feed and is rewritten where \<^verbatim>\<open>os.linesep\<close> is a line
  feed comes back with line feeds alone, which is neither the original nor the
  substitution applied to the original. And \<^verbatim>\<open>open(path, 'w')\<close> empties the file
  before anything is written: when the write fails, the file is left with the part
  that was stored, here with nothing.
\<close>

theorem C1_counterexample:
  "disk (example_world False crlf_texts) ''c/A.sol'' = Some (''revertFoo();'' @ [CR, LF])
   \<and> fix_revert_text (''revertFoo();'' @ [CR, LF]) = ''revert Foo();'' @ [CR, LF]
   \<and> fst (rewrite_tree revert_rule posix_join ''c'' (Some example_tree)
            (fresh (example_world False crlf_texts))) = None
   \<and> disk (snd (rewrite_tree revert_rule posix_join ''c'' (Some example_tree)
                  (fresh (example_world False crlf_texts)))) ''c/A.sol''
       = Some (''revert Foo();'' @ [LF])
   \<and> disk (snd (rewrite_tree revert_rule posix_join ''c'' (Some example_tree)
                  (fresh (example_world False crlf_texts)))) ''c/A.sol''
       \<noteq> disk (example_world False crlf_texts) ''c/A.sol''
   \<and> disk (snd (rewrite_tree revert_rule posix_join ''c'' (Some example_tree)
                  (fresh (example_world False crlf_texts)))) ''c/A.sol''
       \<noteq> Some (fix_revert_text (''revertFoo();'' @ [CR, LF]))
   \<and> disk failing_world ''c/A.sol'' = Some ''revertFoo(); revertBar();''
   \<and> fix_revert_text ''revertFoo(); revertBar();'' = ''revert Foo(); revert Bar();''
   \<and> fst (rewrite_tree revert_rule posix_join ''c'' (Some example_tree) (fresh failing_world))
       = Some (WriteError ''c/A.sol'')
   \<and> disk (snd (rewrite_tree revert_rule posix_join ''c'' (Some example_tree) (fresh failing_world)))
        ''c/A.sol'' = Some []"
  by code_simp

text \<open>
  C1, amended. Let \<open>raw\<close> be the characters of a file and \<open>content\<close> the text that
  reading it gives (\<open>raw\<close> with every line end as a line feed), and let the walk hand
  no path to the body twice. Whatever the outcome of the run: where the pattern
  matches nowhere in \<open>content\<close> the file keeps its characters; and the file holds
  afterwards \<open>raw\<close>, or the whole of
  \<^verbatim>\<open>re.sub(pattern, replacement, content)\<close> with every line feed written as
  \<^verbatim>\<open>os.linesep\<close>, or, when the write failed, the first characters of that. After a
  run without exception a file that passed the filter holds \<open>raw\<close> if the
  substitution changes nothing in \<open>content\<close>, and the whole substituted text, line
  feeds written as \<^verbatim>\<open>os.linesep\<close>, otherwise; read again, it gives exactly
  \<^verbatim>\<open>re.sub(pattern, replacement, content)\<close> for both scripts' rules, one application
  to the whole text; and where \<^verbatim>\<open>os.linesep\<close> is a line feed and \<open>raw\<close> has no
  carriage return, the file holds exactly the substitution applied to \<open>raw\<close>.
\<close>

theorem C1_content_after_processing:
  assumes "rewrite_tree r join topdir root (fresh w) = (e, w')"
      and "distinct (sol_paths join (os_walk_top join topdir root))"
      and "disk w p = Some raw" and "read_text w p = Some content"
  shows "(\<not> re_search (rule_pattern r) content \<longrightarrow> disk w' p = Some raw)
       \<and> (e = None \<and> p \<in> set (sol_paths join (os_walk_top join topdir root)) \<longrightarrow>
            disk w' p = Some (if (re_sub (rule_pattern r) (rule_repl r) content) = content then raw else written w (re_sub (rule_pattern r) (rule_repl r) content)))
       \<and> (e = None \<and> p \<in> set (sol_paths join (os_walk_top join topdir root)) \<and> (r = revert_rule \<or> r = pragma_rule) \<longrightarrow>
            read_text w' p = Some (re_sub (rule_pattern r) (rule_repl r) content))
       \<and> (e = None \<and> p \<in> set (sol_paths join (os_walk_top join topdir root)) \<and> \<not> windows w \<and> CR \<notin> set raw \<longrightarrow>
            disk w' p = Some (re_sub (rule_pattern r) (rule_repl r) raw))
       \<and> (disk w' p = Some raw
          \<or> disk w' p = Some (written w (re_sub (rule_pattern r) (rule_repl r) content))
          \<or> (\<exists>n. write_fails w p = Some n \<and> disk w' p = Some (take n (written w (re_sub (rule_pattern r) (rule_repl r) content)))))"
proof -
  let ?ps = "sol_paths join (os_walk_top join topdir root)"
  let ?new = "re_sub (rule_pattern r) (rule_repl r) content"
  from assms(1) have run: "run_paths r ?ps (fresh w) = (e, w')"
    by (simp add: rewrite_tree_run_paths)
  from assms(3,4) have c: "content = universal_newlines raw" by (simp add: read_text_def)
  note rw = rewritten_eq [OF assms(3,4), of r]
  have 1: "disk w' p = Some raw" if "\<not> re_search (rule_pattern r) content"
  proof -
    from no_match_unchanged [OF assms(4) that] have "\<not> changed r (fresh w) p" by simp
    from run_paths_unchanged [OF run this] assms(3) show ?thesis by simp
  qed
  have fin: "disk w' p = Some (rewritten r w raw)" if "e = None" and "p \<in> set ?ps"
    using run_paths_ok(1) [OF run [unfolded that(1)] assms(2)] that(2) assms(3) by simp
  have 2: "disk w' p = Some (if ?new = content then raw else written w ?new)"
    if "e = None" and "p \<in> set ?ps"
    using fin [OF that] rw by simp
  have 3: "read_text w' p = Some ?new"
    if "e = None" and "p \<in> set ?ps" and "r = revert_rule \<or> r = pragma_rule"
    using fin [OF that(1,2)] read_rewritten [where raw = raw and w = w, OF rule_cases_no_CR [OF that(3)]]
    by (simp add: read_text_def c)
  have 4: "disk w' p = Some (re_sub (rule_pattern r) (rule_repl r) raw)"
    if "e = None" and "p \<in> set ?ps" and "\<not> windows w" and "CR \<notin> set raw"
  proof -
    from that(4) have "content = raw" by (simp add: c universal_newlines_id)
    moreover from that(3) have "written w s = s" for s
      by (simp add: written_def write_newlines_posix)
    ultimately show ?thesis using 2 [OF that(1,2)] by auto
  qed
  from run_paths_either [OF run assms(2), of p raw] assms(3)
  have 5: "disk w' p = Some raw
          \<or> disk w' p = Some (written w ?new)
          \<or> (\<exists>n. write_fails w p = Some n \<and> disk w' p = Some (take n (written w ?new)))"
    by (auto simp: c)
  from 1 2 3 4 5 show ?thesis by blast
qed

theorem C1_witness:
  "disk (snd (rewrite_tree revert_rule posix_join ''c'' (Some example_tree)
          (fresh (example_world False example_texts)))) ''c/A.sol'' = Some ''revert Foo(); revert Bar();''
   \<and> disk (snd (rewrite_tree revert_rule posix_join ''c'' (Some example_tree)
          (fresh (example_world False example_texts)))) ''c/lib/B.sol'' = Some ''revert AlreadySet();''
   \<and> disk (snd (rewrite_tree revert_rule posix_join ''c'' (Some example_tree)
                  (fresh (example_world True lf_texts)))) ''c/A.sol''
       = Some (''revert Foo();'' @ [CR, LF])
   \<and> read_text (snd (rewrite_tree revert_rule posix_join ''c'' (Some example_tree)
                       (fresh (example_world True lf_texts)))) ''c/A.sol''
       = Some (''revert Foo();'' @ [LF])"
proof -
  let ?w = "example_world False example_texts"
  let ?run = "rewrite_tree revert_rule posix_join ''c'' (Some example_tree) (fresh ?w)"
  let ?v = "example_world True lf_texts"
  let ?win = "rewrite_tree revert_rule posix_join ''c'' (Some example_tree) (fresh ?v)"
  have run: "?run = (None, snd ?run)"
    using ex_run by (simp add: prod_eq_iff)
  have win: "?win = (None, snd ?win)"
  proof -
    have "fst ?win = None" by code_simp
    then show ?thesis by (simp add: prod_eq_iff)
  qed
  have da: "disk ?w ''c/A.sol'' = Some ''revertFoo(); revertBar();''"
    and ra: "read_text ?w ''c/A.sol'' = Some ''revertFoo(); revertBar();''"
    and db: "disk ?w ''c/lib/B.sol'' = Some ''revert AlreadySet();''"
    and rb: "read_text ?w ''c/lib/B.sol'' = Some ''revert AlreadySet();''"
    and dv: "disk ?v ''c/A.sol'' = Some (''revertFoo();'' @ [LF])"
    and rv: "read_text ?v ''c/A.sol'' = Some (''revertFoo();'' @ [LF])"
    by code_simp+
  have posix: "\<not> windows ?w" "CR \<notin> set ''revertFoo(); revertBar();''"
    by code_simp+
  have sa: "re_sub (rule_pattern revert_rule) (rule_repl revert_rule) ''revertFoo(); revertBar();''
              = ''revert Foo(); revert Bar();''"
    by code_simp
  have sb: "\<not> re_search (rule_pattern revert_rule) ''revert AlreadySet();''"
    by code_simp
  have sv: "re_sub (rule_pattern revert_rule) (rule_repl revert_rule) (''revertFoo();'' @ [LF])
              = ''revert Foo();'' @ [LF]"
    "written ?v (''revert Foo();'' @ [LF]) = ''revert Foo();'' @ [CR, LF]"
    by code_simp+
  have ne: "''revert Foo();'' @ [LF] \<noteq> ''revertFoo();'' @ [LF]" by simp
  from C1_content_after_processing [OF run ex_distinct da ra] ex_paths(1) posix
  have 1: "disk (snd ?run) ''c/A.sol'' = Some ''revert Foo(); revert Bar();''"
    unfolding sa by blast
  from C1_content_after_processing [OF run ex_distinct db rb] sb
  have 2: "disk (snd ?run) ''c/lib/B.sol'' = Some ''revert AlreadySet();''"
    by blast
  from C1_content_after_processing [OF win ex_distinct dv rv] ex_paths(1)
  have "disk (snd ?win) ''c/A.sol''
          = Some (if ''revert Foo();'' @ [LF] = ''revertFoo();'' @ [LF] then ''revertFoo();'' @ [LF]
                  else ''revert Foo();'' @ [CR, LF])
        \<and> read_text (snd ?win) ''c/A.sol'' = Some (''revert Foo();'' @ [LF])"
    unfolding sv by blast
  with ne have 3: "disk (snd ?win) ''c/A.sol'' = Some (''revert Foo();'' @ [CR, LF])
        \<and> read_text (snd ?win) ''c/A.sol'' = Some (''revert Foo();'' @ [LF])"
    by (simp only: if_False)
  from 1 2 3 show ?thesis by blast
qed

text \<open>
  C2 (idempotence), as stated: applying either rule to its own output gives the same
  output, for every text. This fails for the revert rule: in
  \<^verbatim>\<open>revertFoorevertBar();\<close> the match starts at the first \<^verbatim>\<open>revert\<close> and captures
  \<^verbatim>\<open>FoorevertBar\<close>; the result \<^verbatim>\<open>revert FoorevertBar();\<close> holds a new match, which
  the second application rewrites to \<^verbatim>\<open>revert Foorevert Bar();\<close>.
\<close>

theorem C2_counterexample:
  "fix_revert_text ''revertFoorevertBar();'' = ''revert FoorevertBar();''
   \<and> fix_revert_text ''revert FoorevertBar();'' = ''revert Foorevert Bar();''
   \<and> fix_revert_text (fix_revert_text ''revertFoorevertBar();'')
       \<noteq> fix_revert_text ''revertFoorevertBar();''"
  by code_simp

text \<open>
  C2, amended: the pragma rule is idempotent on every text. The revert rule is
  idempotent on a text exactly when no identifier captured by a match in it (the list
  \<^verbatim>\<open>re.findall(pattern, text)\<close>) contains \<^verbatim>\<open>revert\<close> followed by an upper-case
  letter.
\<close>

theorem C2_idempotence_amended:
  "fix_solidity_version_text (fix_solidity_version_text x) = fix_solidity_version_text x
   \<and> (fix_revert_text (fix_revert_text y) = fix_revert_text y
        \<longleftrightarrow> (\<forall>w \<in> set (re_findall pattern y).
               \<not> (\<exists>u. in_class u upper \<and> sublist (''revert'' @ [u]) w)))"
  using pragma_idempotent [of x] revert_idempotent_iff [of y]
  unfolding nested_revert_def by blast

theorem C2_witness:
  "fix_revert_text (fix_revert_text ''revertFoo(); revertBar();'')
     = fix_revert_text ''revertFoo(); revertBar();''"
proof -
  have f: "re_findall pattern ''revertFoo(); revertBar();'' = [''Foo'', ''Bar'']"
    by code_simp
  have "\<not> sublist (''revert'' @ [u]) w" if "w \<in> set [''Foo'', ''Bar'']" for u w
  proof
    assume "sublist (''revert'' @ [u]) w"
    then have "length (''revert'' @ [u]) \<le> length w" by (rule sublist_length_le)
    with that show False by auto
  qed
  then have "\<forall>w \<in> set (re_findall pattern ''revertFoo(); revertBar();'').
               \<not> (\<exists>u. in_class u upper \<and> sublist (''revert'' @ [u]) w)"
    unfolding f by blast
  with C2_idempotence_amended [of "[]" "''revertFoo(); revertBar();''"]
  show ?thesis by blast
qed

text \<open>
  C3 (capture correctness of the revert rule): the text \<^verbatim>\<open>revertInsufficientBalance();\<close>
  becomes \<^verbatim>\<open>revert InsufficientBalance();\<close>, one space inserted and the captured
  identifier used again, and the text \<^verbatim>\<open>revert AlreadySet();\<close>, which has the space
  already, comes back unchanged.
\<close>

theorem C3_capture_correctness:
  "fix_revert_text ''revertInsufficientBalance();'' = ''revert InsufficientBalance();''
   \<and> fix_revert_text ''revert AlreadySet();'' = ''revert AlreadySet();''"
  by code_simp

text \<open>
  C4 (literal replacement of the pragma rule): wherever
  \<^verbatim>\<open>pragma solidity =0.8.15;\<close> occurs in a text, the occurrence is replaced by
  \<^verbatim>\<open>pragma solidity ^0.8.20;\<close> and the texts before and behind it are rewritten on
  their own; no occurrence of the old line is left in the result; and a text without
  an occurrence of the old line, such as one with \<^verbatim>\<open>pragma solidity ^0.8.19;\<close>,
  comes back unchanged.
\<close>

theorem C4_literal_replacement:
  "fix_solidity_version_text (a @ ''pragma solidity =0.8.15;'' @ b)
     = fix_solidity_version_text a @ ''pragma solidity ^0.8.20;'' @ fix_solidity_version_text b
   \<and> \<not> sublist ''pragma solidity =0.8.15;'' (fix_solidity_version_text x)
   \<and> (\<not> sublist ''pragma solidity =0.8.15;'' y \<longrightarrow> fix_solidity_version_text y = y)"
  using pragma_context [of a b] pragma_all_replaced [of x] pragma_no_occurrence [of y]
  unfolding old_pragma_def new_pragma_def by blast

theorem C4_witness:
  "sublist ''pragma solidity ^0.8.19;'' ''pragma solidity ^0.8.19; contract C {}''
   \<and> fix_solidity_version_text ''pragma solidity ^0.8.19; contract C {}''
       = ''pragma solidity ^0.8.19; contract C {}''"
proof -
  let ?y = "''pragma solidity ^0.8.19; contract C {}''"
  have 1: "sublist ''pragma solidity ^0.8.19;'' ?y" by code_simp
  have 2: "\<not> sublist ''pragma solidity =0.8.15;'' ?y" by code_simp
  from C4_literal_replacement [of "[]" "[]" "[]" ?y] 1 2 show ?thesis by blast
qed

text \<open>
  C5 (no-op preservation): whatever the outcome of the run, a file in whose content
  the pattern matches nowhere keeps its characters, is never opened for writing and
  is never reported, and a file is opened for writing only if the substituted content
  differs from the content. In a run that ends without an exception, a file that
  passed the filter is opened for writing if and only if the substituted content
  differs from the content; when no path is visited twice, then in that case the file
  holds the substituted content afterwards (line feeds written as \<^verbatim>\<open>os.linesep\<close>)
  and is reported, and otherwise it keeps its characters and is not reported; for
  both scripts' rules the characters of the file have changed if and only if the
  substituted content differs from the content.
\<close>

theorem C5_noop_preservation:
  assumes "rewrite_tree r join topdir root (fresh w) = (e, w')"
      and "disk w p = Some raw" and "read_text w p = Some content"
  shows "(\<not> re_search (rule_pattern r) content \<longrightarrow>
            disk w' p = Some raw \<and> OpenW p \<notin> set (calls w') \<and> rule_msg r @ p \<notin> set (stdout w'))
       \<and> (OpenW p \<in> set (calls w') \<longrightarrow> (re_sub (rule_pattern r) (rule_repl r) content) \<noteq> content)
       \<and> (e = None \<and> p \<in> set (sol_paths join (os_walk_top join topdir root)) \<longrightarrow>
            (OpenW p \<in> set (calls w') \<longleftrightarrow> (re_sub (rule_pattern r) (rule_repl r) content) \<noteq> content))
       \<and> (e = None \<and> p \<in> set (sol_paths join (os_walk_top join topdir root)) \<and> distinct (sol_paths join (os_walk_top join topdir root)) \<longrightarrow>
            (if (re_sub (rule_pattern r) (rule_repl r) content) \<noteq> content
             then disk w' p = Some (written w (re_sub (rule_pattern r) (rule_repl r) content)) \<and> rule_msg r @ p \<in> set (stdout w')
             else disk w' p = Some raw \<and> rule_msg r @ p \<notin> set (stdout w')))
       \<and> (e = None \<and> p \<in> set (sol_paths join (os_walk_top join topdir root)) \<and> distinct (sol_paths join (os_walk_top join topdir root)) \<and> (r = revert_rule \<or> r = pragma_rule) \<longrightarrow>
            (disk w' p \<noteq> Some raw \<longleftrightarrow> (re_sub (rule_pattern r) (rule_repl r) content) \<noteq> content))"
proof -
  let ?ps = "sol_paths join (os_walk_top join topdir root)"
  let ?new = "re_sub (rule_pattern r) (rule_repl r) content"
  from assms(1) have run: "run_paths r ?ps (fresh w) = (e, w')"
    by (simp add: rewrite_tree_run_paths)
  from assms(2,3) have c: "content = universal_newlines raw" by (simp add: read_text_def)
  have ch: "changed r (fresh w) p \<longleftrightarrow> ?new \<noteq> content"
    using changed_iff [OF assms(3), of r] by simp
  note rw = rewritten_eq [OF assms(2,3), of r]
  have nc: "disk w' p = Some raw \<and> OpenW p \<notin> set (calls w') \<and> rule_msg r @ p \<notin> set (stdout w')"
    if "\<not> changed r (fresh w) p"
    using run_paths_unchanged [OF run that] assms(2) by simp
  have 1: "disk w' p = Some raw \<and> OpenW p \<notin> set (calls w') \<and> rule_msg r @ p \<notin> set (stdout w')"
    if "\<not> re_search (rule_pattern r) content"
    using no_match_unchanged [OF assms(3) that] nc by simp
  have 2: "?new \<noteq> content" if "OpenW p \<in> set (calls w')"
    using that nc ch by blast
  have 3: "OpenW p \<in> set (calls w') \<longleftrightarrow> ?new \<noteq> content"
    if "e = None" and "p \<in> set ?ps"
    using that run run_paths_written [of r ?ps "fresh w" w' p] nc ch by blast
  have 4: "if ?new \<noteq> content
           then disk w' p = Some (written w ?new) \<and> rule_msg r @ p \<in> set (stdout w')
           else disk w' p = Some raw \<and> rule_msg r @ p \<notin> set (stdout w')"
    if "e = None" and "p \<in> set ?ps" and d: "distinct ?ps"
  proof (cases "?new \<noteq> content")
    case True
    from run_paths_ok(1) [OF run [unfolded that(1)] d] that(2) assms(2)
    have "disk w' p = Some (rewritten r w raw)" by simp
    with rw True have "disk w' p = Some (written w ?new)" by simp
    moreover from run_paths_ok(3) [OF run [unfolded that(1)] d] that(2) True ch
    have "rule_msg r @ p \<in> set (stdout w')" by simp
    ultimately show ?thesis using True by simp
  next
    case False
    with nc ch show ?thesis by simp
  qed
  have 5: "disk w' p \<noteq> Some raw \<longleftrightarrow> ?new \<noteq> content"
    if "e = None" and "p \<in> set ?ps" and d: "distinct ?ps" and "r = revert_rule \<or> r = pragma_rule"
  proof -
    from run_paths_ok(1) [OF run [unfolded that(1)] d] that(2) assms(2)
    have "disk w' p = Some (rewritten r w raw)" by simp
    with rewritten_differs [where raw = raw and w = w, OF rule_cases_no_CR [OF that(4)]]
    show ?thesis by (simp add: c)
  qed
  from 1 2 3 4 5 show ?thesis by blast
qed

theorem C5_witness:
  "disk (snd (rewrite_tree revert_rule posix_join ''c'' (Some example_tree)
          (fresh (example_world False example_texts)))) ''c/lib/B.sol'' = Some ''revert AlreadySet();''
   \<and> OpenW ''c/lib/B.sol'' \<notin> set (calls (snd (rewrite_tree revert_rule posix_join ''c'' (Some example_tree)
          (fresh (example_world False example_texts)))))
   \<and> ''Fixed c/lib/B.sol'' \<notin> set (stdout (snd (rewrite_tree revert_rule posix_join ''c'' (Some example_tree)
          (fresh (example_world False example_texts)))))
   \<and> OpenW ''c/A.sol'' \<in> set (calls (snd (rewrite_tree revert_rule posix_join ''c'' (Some example_tree)
          (fresh (example_world False example_texts)))))
   \<and> disk (snd (rewrite_tree revert_rule posix_join ''c'' (Some example_tree)
          (fresh (example_world False example_texts)))) ''c/A.sol'' = Some ''revert Foo(); revert Bar();''
   \<and> ''Fixed c/A.sol'' \<in> set (stdout (snd (rewrite_tree revert_rule posix_join ''c'' (Some example_tree)
          (fresh (example_world False example_texts)))))"
proof -
  let ?w = "example_world False example_texts"
  let ?run = "rewrite_tree revert_rule posix_join ''c'' (Some example_tree) (fresh ?w)"
  have run: "?run = (None, snd ?run)"
    using ex_run by (simp add: prod_eq_iff)
  have da: "disk ?w ''c/A.sol'' = Some ''revertFoo(); revertBar();''"
    and ra: "read_text ?w ''c/A.sol'' = Some ''revertFoo(); revertBar();''"
    and db: "disk ?w ''c/lib/B.sol'' = Some ''revert AlreadySet();''"
    and rb: "read_text ?w ''c/lib/B.sol'' = Some ''revert AlreadySet();''"
    by code_simp+
  have sa: "re_sub (rule_pattern revert_rule) (rule_repl revert_rule) ''revertFoo(); revertBar();''
              = ''revert Foo(); revert Bar();''"
    "written ?w ''revert Foo(); revert Bar();'' = ''revert Foo(); revert Bar();''"
    by code_simp+
  have ne: "''revert Foo(); revert Bar();'' \<noteq> ''revertFoo(); revertBar();''" by simp
  have sb: "\<not> re_search (rule_pattern revert_rule) ''revert AlreadySet();''"
    by code_simp
  have m: "rule_msg revert_rule @ ''c/lib/B.sol'' = ''Fixed c/lib/B.sol''"
    "rule_msg revert_rule @ ''c/A.sol'' = ''Fixed c/A.sol''"
    by (simp_all add: revert_rule_def)
  from C5_noop_preservation [OF run db rb] sb
  have 1: "disk (snd ?run) ''c/lib/B.sol'' = Some ''revert AlreadySet();''
        \<and> OpenW ''c/lib/B.sol'' \<notin> set (calls (snd ?run))
        \<and> ''Fixed c/lib/B.sol'' \<notin> set (stdout (snd ?run))"
    unfolding m by blast
  from C5_noop_preservation [OF run da ra] ex_paths(1) ex_distinct ne
  have 2: "OpenW ''c/A.sol'' \<in> set (calls (snd ?run))
        \<and> disk (snd ?run) ''c/A.sol'' = Some ''revert Foo(); revert Bar();''
        \<and> ''Fixed c/A.sol'' \<in> set (stdout (snd ?run))"
    by (simp add: sa m)
  from 1 2 show ?thesis by blast
qed

text \<open>
  C6 (selectivity): whatever the outcome of the run, a path that is not the joined path
  of a walked name with the suffix \<^verbatim>\<open>.sol\<close> (compared character by character, so
  case-sensitive) is never opened, for reading or for writing, keeps what it holds and
  is never reported. In the example tree \<^verbatim>\<open>X.SOL\<close> and \<^verbatim>\<open>C.solx\<close> are such
  files.
\<close>

theorem C6_selectivity:
  assumes "rewrite_tree r join topdir root (fresh w) = (e, w')"
      and "\<forall>(d, dirs, files) \<in> set (os_walk_top join topdir root).
             \<forall>f \<in> set files. suffix ''.sol'' f \<longrightarrow> join d f \<noteq> p"
  shows "OpenR p \<notin> set (calls w') \<and> OpenW p \<notin> set (calls w')
       \<and> disk w' p = disk w p \<and> rule_msg r @ p \<notin> set (stdout w')"
proof -
  let ?ps = "sol_paths join (os_walk_top join topdir root)"
  from assms(1) have run: "run_paths r ?ps (fresh w) = (e, w')"
    by (simp add: rewrite_tree_run_paths)
  from assms(2) have p: "p \<notin> set ?ps"
    unfolding in_sol_paths by blast
  from run_paths_calls_frame [OF run] p
  have "OpenR p \<notin> set (calls w') \<and> OpenW p \<notin> set (calls w')"
    by auto
  moreover from run_paths_disk_frame [OF run p] have "disk w' p = disk w p"
    by simp
  moreover from run_paths_stdout_frame [OF run] p have "rule_msg r @ p \<notin> set (stdout w')"
    by auto
  ultimately show ?thesis by blast
qed

theorem C6_witness:
  "OpenR ''c/X.SOL'' \<notin> set (calls (snd (rewrite_tree revert_rule posix_join ''c'' (Some example_tree)
          (fresh (example_world False example_texts)))))
   \<and> disk (snd (rewrite_tree revert_rule posix_join ''c'' (Some example_tree)
          (fresh (example_world False example_texts)))) ''c/X.SOL'' = Some ''revertFoo();''
   \<and> OpenR ''c/lib/C.solx'' \<notin> set (calls (snd (rewrite_tree revert_rule posix_join ''c'' (Some example_tree)
          (fresh (example_world False example_texts)))))
   \<and> disk (snd (rewrite_tree revert_rule posix_join ''c'' (Some example_tree)
          (fresh (example_world False example_texts)))) ''c/lib/C.solx'' = Some ''revertFoo();''"
proof -
  let ?w = "example_world False example_texts"
  let ?run = "rewrite_tree revert_rule posix_join ''c'' (Some example_tree) (fresh ?w)"
  have run: "?run = (fst ?run, snd ?run)" by simp
  have x: "\<forall>(d, dirs, files) \<in> set (os_walk_top posix_join ''c'' (Some example_tree)).
             \<forall>f \<in> set files. suffix ''.sol'' f \<longrightarrow> posix_join d f \<noteq> ''c/X.SOL''"
    by code_simp
  have y: "\<forall>(d, dirs, files) \<in> set (os_walk_top posix_join ''c'' (Some example_tree)).
             \<forall>f \<in> set files. suffix ''.sol'' f \<longrightarrow> posix_join d f \<noteq> ''c/lib/C.solx''"
    by code_simp
  have tx: "disk ?w ''c/X.SOL'' = Some ''revertFoo();''"
    and ty: "disk ?w ''c/lib/C.solx'' = Some ''revertFoo();''"
    by code_simp+
  from C6_selectivity [OF run x] C6_selectivity [OF run y] tx ty
  show ?thesis by simp
qed

text \<open>
  C7 (missing root): when the root directory does not exist the walk yields nothing;
  both scripts end without an exception; the first leaves the state as it was (no file
  opened, none changed, nothing printed), the second only prints \<^verbatim>\<open>Done!\<close>.
\<close>

theorem C7_missing_root:
  "os_walk_top join d None = []
   \<and> fix_revert join None w = (None, w)
   \<and> fix_solidity_version join None w = (None, w\<lparr>stdout := stdout w @ [''Done!'']\<rparr>)"
  by (simp add: fix_revert_def fix_solidity_version_def rewrite_tree_def os_walk_top_def)




text \<open>
  C9 (console output): in a run that ends without an exception and visits no path
  twice, the console holds one line for each file whose characters the run changed, in
  the order of the walk: \<^verbatim>\<open>Fixed <path>\<close> for \<^verbatim>\<open>fix_revert.py\<close> and
  \<^verbatim>\<open>Updated: <path>\<close> for \<^verbatim>\<open>fix_solidity_version.py\<close>, which prints \<^verbatim>\<open>Done!\<close>
  behind them, also when no file was changed. \<^verbatim>\<open>fix_revert.py\<close> never prints
  \<^verbatim>\<open>Done!\<close>.
\<close>

theorem C9_console_output:
  "(fix_revert join root (fresh w) = (None, w')
      \<and> distinct (sol_paths join (os_walk_top join contracts_dir root)) \<longrightarrow>
    stdout w' = map (\<lambda>p. ''Fixed '' @ p)
                  (filter (\<lambda>p. disk w' p \<noteq> disk w p) (sol_paths join (os_walk_top join contracts_dir root))))
   \<and> (fix_solidity_version join root (fresh w) = (None, w')
      \<and> distinct (sol_paths join (os_walk_top join periphery_dir root)) \<longrightarrow>
    stdout w' = map (\<lambda>p. ''Updated: '' @ p)
                  (filter (\<lambda>p. disk w' p \<noteq> disk w p) (sol_paths join (os_walk_top join periphery_dir root)))
                @ [''Done!''])
   \<and> (fix_revert join root (fresh w) = (e, w') \<longrightarrow> ''Done!'' \<notin> set (stdout w'))"
proof -
  have gen: "stdout w1 = map (\<lambda>p. rule_msg r @ p) (filter (\<lambda>p. disk w1 p \<noteq> disk w p) ps)"
    if run: "run_paths r ps (fresh w) = (None, w1)" and d: "distinct ps"
      and r: "r = revert_rule \<or> r = pragma_rule" for r ps w1
  proof -
    have "changed r (fresh w) p \<longleftrightarrow> disk w1 p \<noteq> disk w p" if "p \<in> set ps" for p
    proof -
      from run_paths_ok(4) [OF run d] that obtain raw where raw: "disk w p = Some raw" by auto
      from run_paths_ok(1) [OF run d] that raw
      have "disk w1 p = Some (rewritten r w raw)" by simp
      with rewritten_differs [where raw = raw and w = w, OF rule_cases_no_CR [OF r]] raw
      show ?thesis by (simp add: changed_def read_text_def)
    qed
    then have "filter (changed r (fresh w)) ps = filter (\<lambda>p. disk w1 p \<noteq> disk w p) ps"
      by (intro filter_cong) simp_all
    with run_paths_ok(3) [OF run d] show ?thesis by simp
  qed
  have 1: "stdout w' = map (\<lambda>p. ''Fixed '' @ p)
                  (filter (\<lambda>p. disk w' p \<noteq> disk w p) (sol_paths join (os_walk_top join contracts_dir root)))"
    if "fix_revert join root (fresh w) = (None, w')"
      and "distinct (sol_paths join (os_walk_top join contracts_dir root))"
    using gen [of revert_rule "sol_paths join (os_walk_top join contracts_dir root)" w'] that
    by (simp add: fix_revert_def rewrite_tree_run_paths revert_rule_def)
  have 2: "stdout w' = map (\<lambda>p. ''Updated: '' @ p)
                  (filter (\<lambda>p. disk w' p \<noteq> disk w p) (sol_paths join (os_walk_top join periphery_dir root)))
                @ [''Done!'']"
    if a: "fix_solidity_version join root (fresh w) = (None, w')"
      and d: "distinct (sol_paths join (os_walk_top join periphery_dir root))"
  proof -
    from a obtain w1 where
      run: "run_paths pragma_rule (sol_paths join (os_walk_top join periphery_dir root)) (fresh w)
              = (None, w1)"
      and w': "w' = w1\<lparr>stdout := stdout w1 @ [''Done!'']\<rparr>"
      by (auto simp: fix_solidity_version_def rewrite_tree_run_paths
            split: prod.splits option.splits)
    from gen [OF run d] w' show ?thesis by (simp add: pragma_rule_def)
  qed
  have 3: "''Done!'' \<notin> set (stdout w')" if "fix_revert join root (fresh w) = (e, w')"
  proof -
    from that have
      "run_paths revert_rule (sol_paths join (os_walk_top join contracts_dir root)) (fresh w) = (e, w')"
      by (simp add: fix_revert_def rewrite_tree_run_paths)
    from run_paths_stdout_frame [OF this] show ?thesis
      by (auto simp: revert_rule_def)
  qed
  from 1 2 3 show ?thesis by blast
qed

theorem C9_witness:
  "stdout (snd (fix_revert posix_join (Some example_tree) (fresh (example_world False contracts_texts))))
     = [''Fixed '' @ posix_join contracts_dir ''A.sol'']
   \<and> stdout (snd (fix_solidity_version posix_join (Some example_tree)
                    (fresh (example_world False periphery_texts))))
     = [''Updated: '' @ posix_join periphery_dir ''A.sol'', ''Done!'']
   \<and> ''Done!'' \<notin> set (stdout (snd (fix_revert posix_join (Some example_tree)
                                       (fresh (example_world False contracts_texts)))))"
proof -
  let ?cw = "example_world False contracts_texts"
  let ?pw = "example_world False periphery_texts"
  let ?r = "fix_revert posix_join (Some example_tree) (fresh ?cw)"
  let ?s = "fix_solidity_version posix_join (Some example_tree) (fresh ?pw)"
  have r: "?r = (None, snd ?r)"
  proof -
    have "fst ?r = None" by code_simp
    then show ?thesis by (simp add: prod_eq_iff)
  qed
  have s: "?s = (None, snd ?s)"
  proof -
    have "fst ?s = None" by code_simp
    then show ?thesis by (simp add: prod_eq_iff)
  qed
  have dr: "distinct (sol_paths posix_join (os_walk_top posix_join contracts_dir (Some example_tree)))"
    by code_simp
  have ds: "distinct (sol_paths posix_join (os_walk_top posix_join periphery_dir (Some example_tree)))"
    by code_simp
  have fr: "filter (\<lambda>p. disk (snd ?r) p \<noteq> disk ?cw p)
              (sol_paths posix_join (os_walk_top posix_join contracts_dir (Some example_tree)))
            = [posix_join contracts_dir ''A.sol'']"
    by code_simp
  have fs: "filter (\<lambda>p. disk (snd ?s) p \<noteq> disk ?pw p)
              (sol_paths posix_join (os_walk_top posix_join periphery_dir (Some example_tree)))
            = [posix_join periphery_dir ''A.sol'']"
    by code_simp
  note c9 = C9_console_output [of posix_join "Some example_tree"]
  have "stdout (snd ?r)
          = map (\<lambda>p. ''Fixed '' @ p)
              (filter (\<lambda>p. disk (snd ?r) p \<noteq> disk ?cw p)
                (sol_paths posix_join (os_walk_top posix_join contracts_dir (Some example_tree))))"
    by (rule c9 [of ?cw "snd ?r", THEN conjunct1, THEN mp]) (rule conjI [OF r dr])
  then have 1: "stdout (snd ?r) = [''Fixed '' @ posix_join contracts_dir ''A.sol'']"
    unfolding fr by simp
  have "stdout (snd ?s)
          = map (\<lambda>p. ''Updated: '' @ p)
              (filter (\<lambda>p. disk (snd ?s) p \<noteq> disk ?pw p)
                (sol_paths posix_join (os_walk_top posix_join periphery_dir (Some example_tree))))
            @ [''Done!'']"
    by (rule c9 [of ?pw "snd ?s", THEN conjunct2, THEN conjunct1, THEN mp]) (rule conjI [OF s ds])
  then have 2: "stdout (snd ?s) = [''Updated: '' @ posix_join periphery_dir ''A.sol'', ''Done!'']"
    unfolding fs by simp
  have 3: "''Done!'' \<notin> set (stdout (snd ?r))"
    by (rule c9 [of ?cw "snd ?r" None, THEN conjunct2, THEN conjunct2, THEN mp]) (rule r)
  from 1 2 3 show ?thesis by blast
qed

text \<open>
  C10 (no word boundary): the pattern does not look at what stands before
  \<^verbatim>\<open>revert\<close>. The text \<^verbatim>\<open>dontrevertFoo();\<close> becomes \<^verbatim>\<open>dontrevert Foo();\<close>, the
  pattern is found in it, and whatever single character stands before
  \<^verbatim>\<open>revertFoo();\<close>, a letter included, the statement behind it is rewritten.
\<close>

theorem C10_rewrites_inside_identifiers:
  "fix_revert_text ''dontrevertFoo();'' = ''dontrevert Foo();''
   \<and> re_search pattern ''dontrevertFoo();''
   \<and> (\<forall>c. fix_revert_text (c # ''revertFoo();'') = c # ''revert Foo();'')"
proof -
  have a: "fix_revert_text ''dontrevertFoo();'' = ''dontrevert Foo();''"
    by code_simp
  have b: "re_search pattern ''dontrevertFoo();''"
    by code_simp
  have c: "fix_revert_text (c # ''revertFoo();'') = c # ''revert Foo();''" for c
  proof -
    have "revert_at (c # ''revertFoo();'') = None"
      by (simp add: revert_at_def)
    moreover have "fix_revert_text ''revertFoo();'' = ''revert Foo();''"
      by code_simp
    ultimately show ?thesis
      by (subst fix_revert_text_unfold) simp
  qed
  from a b c show ?thesis by blast
qed

end
